theory Spec2Isabelle
  imports Complex_Main
begin

section \<open>Chess-Tutor: the rules engine (chess.cpp, chess.h) and the puzzle session (chesspuzzle.cpp)\<close>

text \<open>
  A shallow embedding of the classes \<^verbatim>\<open>Square\<close>, \<^verbatim>\<open>Chess\<close> and \<^verbatim>\<open>ChessPuzzle\<close>.
  C++ \<^verbatim>\<open>int\<close> values are modelled by \<^typ>\<open>int\<close>: the only arithmetic on them is
  subtraction of coordinates, multiplication by a side (1 or -1), \<^verbatim>\<open>abs\<close> and division of a
  coordinate difference by its magnitude, which agree with the mathematical operations on
  every value a coordinate or a piece code can hold apart from \<^verbatim>\<open>INT_MIN\<close>.
  Console output (\<^verbatim>\<open>cout\<close>, \<^verbatim>\<open>printBoard\<close>) and sound effects are left out; Qt signals
  are collected, in emission order, in a list of events.
  Undefined behaviour of the source (an array index out of range, a division by zero, a
  vector index past the end) and its exceptions are values of type \<open>error\<close>; a loop that
  need not terminate returns \<open>None\<close> when it runs forever.
\<close>

subsection \<open>Errors, sides, pieces, events\<close>

datatype error =
    OutOfBounds          \<comment> \<open>\<^verbatim>\<open>board[r][c]\<close> with an index outside 0..7\<close>
  | DivisionByZero       \<comment> \<open>integer division by 0\<close>
  | SquareException      \<comment> \<open>the string thrown by the constructors of \<^verbatim>\<open>Square\<close>\<close>
  | VectorIndex          \<comment> \<open>\<^verbatim>\<open>operator[]\<close> of a vector past its end\<close>
  | SubstrOutOfRange     \<comment> \<open>\<^verbatim>\<open>std::out_of_range\<close> of \<^verbatim>\<open>string::substr\<close>\<close>
  | StoiInvalidArgument  \<comment> \<open>\<^verbatim>\<open>std::invalid_argument\<close> of \<^verbatim>\<open>std::stoi\<close>\<close>
  | StoiOutOfRange       \<comment> \<open>\<^verbatim>\<open>std::out_of_range\<close> of \<^verbatim>\<open>std::stoi\<close>\<close>

datatype Player = WHITE | BLACK

text \<open>The enumerators' values: \<^verbatim>\<open>WHITE = 1\<close>, \<^verbatim>\<open>BLACK = -1\<close>.\<close>

fun player_int :: "Player \<Rightarrow> int" where
  "player_int WHITE = 1"
| "player_int BLACK = - 1"

text \<open>\<^verbatim>\<open>enum Piece{PAWN = 1, ROOK, KNIGHT, BISHOP, QUEEN, KING}\<close>\<close>

definition PAWN :: int where "PAWN = 1"
definition ROOK :: int where "ROOK = 2"
definition KNIGHT :: int where "KNIGHT = 3"
definition BISHOP :: int where "BISHOP = 4"
definition QUEEN :: int where "QUEEN = 5"
definition KING :: int where "KING = 6"

lemmas Piece_defs = PAWN_def ROOK_def KNIGHT_def BISHOP_def QUEEN_def KING_def

text \<open>
  The signals of \<^verbatim>\<open>Chess\<close> and \<^verbatim>\<open>ChessPuzzle\<close>. The coordinates of \<^verbatim>\<open>capture_at\<close> are
  \<^verbatim>\<open>float\<close>s in the source; for the coordinates of a board square the float operations are
  exact, so they are modelled by rationals. \<open>singleShot_makeOpponentMove ms\<close> records the call
  \<^verbatim>\<open>QTimer::singleShot(ms, this, &ChessPuzzle::makeOpponentMove)\<close>.
\<close>

datatype event =
    capture_at rat rat int
  | update_board
  | set_player Player
  | won_game
  | beatPuzzle
  | hintMoveAvailable int int int int
  | hintAvailable int int
  | singleShot_makeOpponentMove int

subsection \<open>Square\<close>

record Square =
  row :: int
  col :: int

text \<open>
  The value of a \<^verbatim>\<open>char\<close> after integer promotion, for a signed \<^verbatim>\<open>char\<close> (as on x86):
  bytes from 128 on are negative. Every test of the source on such a byte has the same outcome
  when \<^verbatim>\<open>char\<close> is unsigned.
\<close>

definition char_int :: "char \<Rightarrow> int" where
  "char_int c = (let n = of_char c in if n < 128 then n else n - 256)"

text \<open>\<^verbatim>\<open>tolower\<close> in the C locale, on the promoted value.\<close>

definition tolower :: "int \<Rightarrow> int" where
  "tolower n = (if char_int CHR ''A'' \<le> n \<and> n \<le> char_int CHR ''Z'' then n + 32 else n)"

text \<open>\<^verbatim>\<open>Square::Square(std::string square)\<close>\<close>

definition Square_string :: "string \<Rightarrow> error + Square" where
  "Square_string square =
     (if length square \<noteq> 2 then Inl SquareException
      else
        let lett = tolower (char_int (square ! 0));
            num = char_int (square ! 1) - char_int CHR ''0''
        in if lett < char_int CHR ''a'' \<or> lett > char_int CHR ''h'' then Inl SquareException
           else if num < 0 \<or> num > 8 then Inl SquareException
           else Inr \<lparr>row = 8 - num, col = lett - char_int CHR ''a''\<rparr>)"

text \<open>\<^verbatim>\<open>Square::Square(int row, int col)\<close>\<close>

definition Square_int :: "int \<Rightarrow> int \<Rightarrow> error + Square" where
  "Square_int r c =
     (if c > 7 \<or> r > 7 \<or> c < 0 \<or> r < 0 then Inl SquareException
      else Inr \<lparr>row = r, col = c\<rparr>)"

subsection \<open>The board and the state of a game\<close>

text \<open>
  \<^verbatim>\<open>int board[8][8]\<close>: the contents at row \<open>r\<close>, column \<open>c\<close>; only indices in 0..7 exist, and
  every read and write goes through \<open>rd\<close> and \<open>wr\<close>, which fail outside.
\<close>

type_synonym board = "int \<Rightarrow> int \<Rightarrow> int"

definition in_range :: "int \<Rightarrow> int \<Rightarrow> bool" where
  "in_range r c \<longleftrightarrow> 0 \<le> r \<and> r < 8 \<and> 0 \<le> c \<and> c < 8"

definition rd :: "board \<Rightarrow> int \<Rightarrow> int \<Rightarrow> error + int" where
  "rd b r c = (if in_range r c then Inr (b r c) else Inl OutOfBounds)"

definition wr :: "board \<Rightarrow> int \<Rightarrow> int \<Rightarrow> int \<Rightarrow> error + board" where
  "wr b r c v = (if in_range r c then Inr (b(r := (b r)(c := v))) else Inl OutOfBounds)"

record chess =
  board :: board
  currentPlayer :: Player
  debugging :: bool

text \<open>The member initialisers of \<^verbatim>\<open>Chess\<close>: \<^verbatim>\<open>board[8][8]{}\<close>, \<^verbatim>\<open>currentPlayer = WHITE\<close>,
  \<^verbatim>\<open>debugging{false}\<close>.\<close>

definition empty_board :: board where
  "empty_board = (\<lambda>r c. 0)"

subsection \<open>clearBoard\<close>

text \<open>
  \<^verbatim>\<open>for(int row = 0; row < 8; row--) for(int col = 0; col < 8; col--) board[row][col] = 0;\<close>
  Both counters are decremented. The inner loop stops in the model at the first index outside
  the array, which is where the behaviour of the source is undefined.
\<close>

function clearBoard_cols :: "board \<Rightarrow> int \<Rightarrow> int \<Rightarrow> error + board" where
  "clearBoard_cols b r c =
     (if c < 8 then
        (case wr b r c 0 of
           Inl e \<Rightarrow> Inl e
         | Inr b' \<Rightarrow> clearBoard_cols b' r (c - 1))
      else Inr b)"
  by pat_completeness auto
termination
  by (relation "measure (\<lambda>(b, r, c). nat (c + 1))")
     (auto simp: wr_def in_range_def split: if_splits)


function clearBoard_rows :: "board \<Rightarrow> int \<Rightarrow> error + board" where
  "clearBoard_rows b r =
     (if r < 8 then
        (case clearBoard_cols b r 0 of
           Inl e \<Rightarrow> Inl e
         | Inr b' \<Rightarrow> clearBoard_rows b' (r - 1))
      else Inr b)"
  by pat_completeness auto
termination
  by (relation "{}") (auto simp: wr_def in_range_def split: if_splits)

declare clearBoard_cols.simps [simp del]
declare clearBoard_rows.simps [simp del]

definition clearBoard :: "'a chess_scheme \<Rightarrow> error + 'a chess_scheme" where
  "clearBoard s =
     (case clearBoard_rows (board s) 0 of
        Inl e \<Rightarrow> Inl e
      | Inr b' \<Rightarrow> Inr (s\<lparr>board := b'\<rparr>))"

text \<open>\<^verbatim>\<open>Chess::loadDefaultBoard\<close>: the array \<^verbatim>\<open>defaultBoard\<close>, black on top.\<close>

definition defaultBoard :: "int list list" where
  "defaultBoard =
    [[- ROOK, - KNIGHT, - BISHOP, - QUEEN, - KING, - BISHOP, - KNIGHT, - ROOK],
     [- PAWN, - PAWN, - PAWN, - PAWN, - PAWN, - PAWN, - PAWN, - PAWN],
     [0, 0, 0, 0, 0, 0, 0, 0],
     [0, 0, 0, 0, 0, 0, 0, 0],
     [0, 0, 0, 0, 0, 0, 0, 0],
     [0, 0, 0, 0, 0, 0, 0, 0],
     [PAWN, PAWN, PAWN, PAWN, PAWN, PAWN, PAWN, PAWN],
     [ROOK, KNIGHT, BISHOP, QUEEN, KING, BISHOP, KNIGHT, ROOK]]"

text \<open>\<^verbatim>\<open>Chess::loadBoard(int newBoard[8][8])\<close> copies the 64 entries of an 8 by 8 array.\<close>

definition loadBoard :: "int list list \<Rightarrow> 'a chess_scheme \<Rightarrow> 'a chess_scheme" where
  "loadBoard newBoard s =
     s\<lparr>board := (\<lambda>r c. if in_range r c then newBoard ! nat r ! nat c else board s r c)\<rparr>"

definition loadDefaultBoard :: "'a chess_scheme \<Rightarrow> 'a chess_scheme" where
  "loadDefaultBoard s = loadBoard defaultBoard s"

subsection \<open>Results of operations that can fail or run forever\<close>

text \<open>
  An operation of the source returns \<open>Inr v\<close>, or fails with \<open>Inl e\<close>; one that contains
  an unbounded loop returns \<open>Some\<close> of that, or \<open>None\<close> when the loop never ends.
\<close>

definition ebind :: "error + 'a \<Rightarrow> ('a \<Rightarrow> error + 'b) \<Rightarrow> error + 'b" where
  "ebind m f = (case m of Inl e \<Rightarrow> Inl e | Inr x \<Rightarrow> f x)"

definition cbind :: "(error + 'a) option \<Rightarrow> ('a \<Rightarrow> (error + 'b) option) \<Rightarrow> (error + 'b) option" where
  "cbind m f = (case m of None \<Rightarrow> None | Some (Inl e) \<Rightarrow> Some (Inl e) | Some (Inr x) \<Rightarrow> f x)"

text \<open>Integer division of C++: the quotient is truncated towards zero, a zero divisor is
  undefined behaviour.\<close>

definition c_div :: "int \<Rightarrow> int \<Rightarrow> error + int" where
  "c_div a b = (if b = 0 then Inl DivisionByZero else Inr (sgn a * sgn b * (\<bar>a\<bar> div \<bar>b\<bar>)))"

subsection \<open>Chess: switchPlayer, getPiece, movePieceUnconditionally\<close>

definition on_board :: "Square \<Rightarrow> bool" where
  "on_board sq \<longleftrightarrow> in_range (row sq) (col sq)"

definition switchPlayer :: "'a chess_scheme \<Rightarrow> 'a chess_scheme \<times> event list" where
  "switchPlayer s =
     (let s' = (if currentPlayer s = BLACK then s\<lparr>currentPlayer := WHITE\<rparr>
                else s\<lparr>currentPlayer := BLACK\<rparr>)
      in (s', [set_player (currentPlayer s')]))"

definition getPiece :: "'a chess_scheme \<Rightarrow> Square \<Rightarrow> error + int" where
  "getPiece s position = rd (board s) (row position) (col position)"

text \<open>
  \<^verbatim>\<open>Chess::movePieceUnconditionally\<close>. The test of the capture,
  \<^verbatim>\<open>board[target] != 0 && board[old] != 0\<close>, reads \<^verbatim>\<open>board[old]\<close> only when the first operand
  is true. The literal 6 of \<^verbatim>\<open>isKingTaken\<close> is the code of the king. The sound effects are
  left out.
\<close>

definition movePieceUnconditionally ::
  "'a chess_scheme \<Rightarrow> Square \<Rightarrow> Square \<Rightarrow> error + ('a chess_scheme \<times> event list)" where
  "movePieceUnconditionally s old target =
     ebind (rd (board s) (row target) (col target)) (\<lambda>tv.
       let isKingTaken = (\<bar>tv\<bar> = 6)
       in
         ebind (if tv \<noteq> 0
                then ebind (rd (board s) (row old) (col old)) (\<lambda>ov. Inr (ov \<noteq> 0))
                else Inr False) (\<lambda>taking.
         let ev_capture =
               (if taking
                then [capture_at (of_int (col target) + 1 / 2) (8 - of_int (row target) - 1 / 2) 30]
                else [])
         in
           ebind (rd (board s) (row old) (col old)) (\<lambda>ov.
           ebind (wr (board s) (row target) (col target) ov) (\<lambda>b1.
           ebind (wr b1 (row old) (col old) 0) (\<lambda>b2.
             let (s', ev_player) = switchPlayer (s\<lparr>board := b2\<rparr>);
                 ev_won = (if isKingTaken then [won_game] else [])
             in Inr (s', ev_capture @ ev_player @ ev_won @ [update_board]))))))"

subsection \<open>Chess: the legality predicates\<close>

text \<open>\<^verbatim>\<open>for i in -1..1, for j in -1..1: if (old + (i, j) == target) return true\<close>\<close>

definition isLegalKingMove :: "Square \<Rightarrow> Square \<Rightarrow> bool" where
  "isLegalKingMove old target =
     list_ex (\<lambda>i. list_ex (\<lambda>j. old\<lparr>row := row old + i, col := col old + j\<rparr> = target)
                [- 1, 0, 1]) [- 1, 0, 1]"

definition rowOffsets :: "int list" where
  "rowOffsets = [- 2, - 2, - 1, - 1, 1, 1, 2, 2]"

definition colOffsets :: "int list" where
  "colOffsets = [1, - 1, 2, - 2, - 2, 2, 1, - 1]"

definition isLegalKnightMove :: "Square \<Rightarrow> Square \<Rightarrow> bool" where
  "isLegalKnightMove old target =
     list_ex (\<lambda>i. old\<lparr>row := row old + rowOffsets ! i, col := col old + colOffsets ! i\<rparr> = target)
       [0 ..< 8]"

text \<open>
  The loop of \<^verbatim>\<open>Chess::isPieceInterrupting\<close>: \<^verbatim>\<open>while(current != target)\<close>, which reads
  \<^verbatim>\<open>board[current]\<close> and steps by the offsets. Nothing bounds the number of iterations.
\<close>

partial_function (option) isPieceInterrupting_while ::
  "board \<Rightarrow> int \<Rightarrow> int \<Rightarrow> Square \<Rightarrow> Square \<Rightarrow> (error + bool) option" where
  "isPieceInterrupting_while b rowOffset colOffset current target =
     (if current \<noteq> target then
        (case rd b (row current) (col current) of
           Inl e \<Rightarrow> Some (Inl e)
         | Inr v \<Rightarrow>
             if v \<noteq> 0 then Some (Inr True)
             else isPieceInterrupting_while b rowOffset colOffset
                    (current\<lparr>row := row current + rowOffset, col := col current + colOffset\<rparr>)
                    target)
      else Some (Inr False))"

declare isPieceInterrupting_while.simps [code]

definition isPieceInterrupting ::
  "board \<Rightarrow> int \<Rightarrow> int \<Rightarrow> Square \<Rightarrow> Square \<Rightarrow> (error + bool) option" where
  "isPieceInterrupting b rowOffset colOffset old target =
     isPieceInterrupting_while b rowOffset colOffset
       (old\<lparr>row := row old + rowOffset, col := col old + colOffset\<rparr>) target"

definition isLegalBishopMove :: "board \<Rightarrow> Square \<Rightarrow> Square \<Rightarrow> (error + bool) option" where
  "isLegalBishopMove b old target =
     (let rowOffset = row target - row old;
          colOffset = col target - col old
      in if \<bar>rowOffset\<bar> - \<bar>colOffset\<bar> = 0 then
           cbind (Some (c_div rowOffset \<bar>rowOffset\<bar>)) (\<lambda>rowOffset'.
           cbind (Some (c_div colOffset \<bar>colOffset\<bar>)) (\<lambda>colOffset'.
           cbind (isPieceInterrupting b rowOffset' colOffset' old target) (\<lambda>r.
             Some (Inr (\<not> r)))))
         else Some (Inr False))"

definition isLegalRookMove :: "board \<Rightarrow> Square \<Rightarrow> Square \<Rightarrow> (error + bool) option" where
  "isLegalRookMove b old target =
     (let rowOffset = row target - row old;
          colOffset = col target - col old
      in if (rowOffset = 0) \<noteq> (colOffset = 0) then
           cbind (if rowOffset \<noteq> 0
                  then cbind (Some (c_div rowOffset \<bar>rowOffset\<bar>)) (\<lambda>r'. Some (Inr (r', colOffset)))
                  else if colOffset \<noteq> 0
                  then cbind (Some (c_div colOffset \<bar>colOffset\<bar>)) (\<lambda>c'. Some (Inr (rowOffset, c')))
                  else Some (Inr (rowOffset, colOffset))) (\<lambda>(rowOffset', colOffset').
           cbind (isPieceInterrupting b rowOffset' colOffset' old target) (\<lambda>r.
             Some (Inr (\<not> r))))
         else Some (Inr False))"

text \<open>\<^verbatim>\<open>isLegalBishopMove(old, target) || isLegalRookMove(old, target)\<close>, the right operand
  evaluated only when the left one is false.\<close>

definition isLegalQueenMove :: "board \<Rightarrow> Square \<Rightarrow> Square \<Rightarrow> (error + bool) option" where
  "isLegalQueenMove b old target =
     cbind (isLegalBishopMove b old target) (\<lambda>diag.
       if diag then Some (Inr True) else isLegalRookMove b old target)"

definition isLegalPawnMove :: "board \<Rightarrow> Square \<Rightarrow> Square \<Rightarrow> (error + bool) option" where
  "isLegalPawnMove b old target =
     (let rowOffset = row target - row old;
          colOffset = col target - col old
      in cbind (Some (rd b (row old) (col old))) (\<lambda>direction.
           if rowOffset * direction > 0 then Some (Inr False)
           else if \<bar>colOffset\<bar> = 1 \<and> rowOffset * direction = - 1 then
             cbind (Some (rd b (row target) (col target))) (\<lambda>tv.
               Some (Inr (tv * direction \<le> 0)))
           else if colOffset = 0 \<and> \<bar>rowOffset\<bar> = 2 then
             (if (direction = player_int WHITE \<and> row old \<noteq> 6)
                 \<or> (direction = player_int BLACK \<and> row old \<noteq> 1)
              then Some (Inr False)
              else cbind (isPieceInterrupting b (- direction) 0 old target) (\<lambda>r.
                     Some (Inr (\<not> r))))
           else if colOffset = 0 \<and> \<bar>rowOffset\<bar> = 1 then Some (Inr True)
           else Some (Inr False)))"

subsection \<open>Chess: movePiece\<close>

text \<open>
  The pattern of every case of the switch in \<^verbatim>\<open>Chess::movePiece\<close>:
  \<^verbatim>\<open>if (isLegal...Move(old, new)) movePieceUnconditionally(old, new);\<close> and nothing otherwise.
\<close>

definition move_if ::
  "(error + bool) option \<Rightarrow> 'a chess_scheme \<Rightarrow> Square \<Rightarrow> Square
     \<Rightarrow> (error + ('a chess_scheme \<times> event list)) option" where
  "move_if legal s oldSquare newSquare =
     cbind legal (\<lambda>ok.
       if ok then Some (movePieceUnconditionally s oldSquare newSquare)
       else Some (Inr (s, [])))"

definition movePiece ::
  "'a chess_scheme \<Rightarrow> Square \<Rightarrow> Square \<Rightarrow> (error + ('a chess_scheme \<times> event list)) option" where
  "movePiece s oldSquare newSquare =
     cbind (Some (rd (board s) (row oldSquare) (col oldSquare))) (\<lambda>piece.
       if piece * player_int (currentPlayer s) \<le> 0 then Some (Inr (s, []))
       else if oldSquare = newSquare then Some (Inr (s, []))
       else
         cbind (Some (rd (board s) (row newSquare) (col newSquare))) (\<lambda>tv.
           if tv * player_int (currentPlayer s) > 0 then Some (Inr (s, []))
           else if \<bar>piece\<bar> = KING then
             move_if (Some (Inr (isLegalKingMove oldSquare newSquare))) s oldSquare newSquare
           else if \<bar>piece\<bar> = QUEEN then
             move_if (isLegalQueenMove (board s) oldSquare newSquare) s oldSquare newSquare
           else if \<bar>piece\<bar> = BISHOP then
             move_if (isLegalBishopMove (board s) oldSquare newSquare) s oldSquare newSquare
           else if \<bar>piece\<bar> = KNIGHT then
             move_if (Some (Inr (isLegalKnightMove oldSquare newSquare))) s oldSquare newSquare
           else if \<bar>piece\<bar> = ROOK then
             move_if (isLegalRookMove (board s) oldSquare newSquare) s oldSquare newSquare
           else if \<bar>piece\<bar> = PAWN then
             move_if (isLegalPawnMove (board s) oldSquare newSquare) s oldSquare newSquare
           else Some (Inr (s, []))))"

section \<open>ChessPuzzle (chesspuzzle.cpp, chesspuzzle.h)\<close>

text \<open>
  \<^verbatim>\<open>class ChessPuzzle : public Chess\<close>: the state of a \<^verbatim>\<open>Chess\<close> extended by the members
  \<^verbatim>\<open>solutionMoves\<close>, \<^verbatim>\<open>currentStep = 0\<close>, \<^verbatim>\<open>puzzleElo = 0\<close> and \<^verbatim>\<open>usedHint{false}\<close>.
\<close>

record puzzle = chess +
  solutionMoves :: "(Square \<times> Square) list"
  currentStep :: int
  puzzleElo :: int
  usedHint :: bool

definition new_puzzle :: puzzle where
  "new_puzzle = \<lparr>board = empty_board, currentPlayer = WHITE, debugging = False,
                  solutionMoves = [], currentStep = 0, puzzleElo = 0, usedHint = False\<rparr>"

subsection \<open>split\<close>

text \<open>
  \<^verbatim>\<open>while(std::getline(ss, item, delimiter)) tokens.push_back(item);\<close>
  \<open>getline\<close> reads up to and including the next delimiter, or to the end of the input; it
  fails, and the loop ends, when it can extract no character at all. \<open>item\<close> holds the
  characters read so far for the current token.
\<close>

fun split_chars :: "char \<Rightarrow> string \<Rightarrow> string \<Rightarrow> string list" where
  "split_chars delimiter item [] = (if item = [] then [] else [item])"
| "split_chars delimiter item (c # cs) =
     (if c = delimiter then item # split_chars delimiter [] cs
      else split_chars delimiter (item @ [c]) cs)"

definition split :: "string \<Rightarrow> char \<Rightarrow> string list" where
  "split PGN delimiter = split_chars delimiter [] PGN"

subsection \<open>std::stoi and string::substr\<close>

text \<open>
  \<^verbatim>\<open>std::stoi(str)\<close> (base 10): leading white space is skipped, then an optional sign and the
  longest run of digits are read; no digit gives \<^verbatim>\<open>std::invalid_argument\<close>, a value outside
  the range of a 32-bit \<^verbatim>\<open>int\<close> gives \<^verbatim>\<open>std::out_of_range\<close>.
\<close>

definition isspace :: "char \<Rightarrow> bool" where
  "isspace c \<longleftrightarrow> char_int c = 32 \<or> (9 \<le> char_int c \<and> char_int c \<le> 13)"

definition isdigit :: "char \<Rightarrow> bool" where
  "isdigit c \<longleftrightarrow> char_int CHR ''0'' \<le> char_int c \<and> char_int c \<le> char_int CHR ''9''"

definition digits_value :: "string \<Rightarrow> int" where
  "digits_value ds = foldl (\<lambda>acc c. 10 * acc + (char_int c - char_int CHR ''0'')) 0 ds"

definition stoi :: "string \<Rightarrow> error + int" where
  "stoi str =
     (let s1 = dropWhile isspace str;
          negative = (s1 \<noteq> [] \<and> hd s1 = CHR ''-'');
          s2 = (if s1 \<noteq> [] \<and> (hd s1 = CHR ''-'' \<or> hd s1 = CHR ''+'') then tl s1 else s1);
          ds = takeWhile isdigit s2
      in if ds = [] then Inl StoiInvalidArgument
         else
           let v = (if negative then - digits_value ds else digits_value ds)
           in if v < - (2 ^ 31) \<or> v > 2 ^ 31 - 1 then Inl StoiOutOfRange else Inr v)"

text \<open>\<^verbatim>\<open>str.substr(pos, n)\<close> throws when \<open>pos\<close> is past the end of the string.\<close>

definition substr :: "string \<Rightarrow> nat \<Rightarrow> nat \<Rightarrow> error + string" where
  "substr str pos n = (if pos > length str then Inl SubstrOutOfRange else Inr (take n (drop pos str)))"

subsection \<open>toPiece and loadFEN\<close>

definition toPiece :: "char \<Rightarrow> int" where
  "toPiece c =
     (if c = CHR ''k'' then - KING
      else if c = CHR ''q'' then - QUEEN
      else if c = CHR ''n'' then - KNIGHT
      else if c = CHR ''b'' then - BISHOP
      else if c = CHR ''r'' then - ROOK
      else if c = CHR ''p'' then - PAWN
      else if c = CHR ''K'' then KING
      else if c = CHR ''Q'' then QUEEN
      else if c = CHR ''N'' then KNIGHT
      else if c = CHR ''B'' then BISHOP
      else if c = CHR ''R'' then ROOK
      else if c = CHR ''P'' then PAWN
      else 0)"

text \<open>The loop \<^verbatim>\<open>for(char c : startingPositions)\<close> of \<^verbatim>\<open>loadFEN\<close>, with its cursor
  \<open>(row, col)\<close>.\<close>

fun loadFEN_chars :: "board \<Rightarrow> int \<Rightarrow> int \<Rightarrow> string \<Rightarrow> error + board" where
  "loadFEN_chars b r c [] = Inr b"
| "loadFEN_chars b r c (ch # chs) =
     (if ch = CHR ''/'' then loadFEN_chars b (r + 1) 0 chs
      else if isdigit ch then loadFEN_chars b r (c + (char_int ch - char_int CHR ''0'')) chs
      else
        (case wr b r c (toPiece ch) of
           Inl e \<Rightarrow> Inl e
         | Inr b' \<Rightarrow> loadFEN_chars b' r (c + 1) chs))"

definition loadFEN :: "string \<Rightarrow> 'a chess_scheme \<Rightarrow> error + 'a chess_scheme" where
  "loadFEN FEN s =
     (let parts = split FEN CHR '' ''
      in if length parts < 2 then Inl VectorIndex
         else
           let startingPositions = parts ! 0;
               startingPlayer = parts ! 1
           in ebind (loadFEN_chars (board s) 0 0 startingPositions) (\<lambda>b.
                Inr (s\<lparr>board := b,
                       currentPlayer := (if startingPlayer = ''b'' then BLACK else WHITE)\<rparr>)))"

subsection \<open>loadMoves, makeOpponentMove, makeGuess\<close>

text \<open>The loop \<^verbatim>\<open>for(string move : moves)\<close> of \<^verbatim>\<open>loadMoves\<close>; \<open>acc\<close> is \<^verbatim>\<open>solutionMoves\<close>.\<close>

fun loadMoves_tokens ::
  "(Square \<times> Square) list \<Rightarrow> string list \<Rightarrow> error + (Square \<times> Square) list" where
  "loadMoves_tokens acc [] = Inr acc"
| "loadMoves_tokens acc (move # moves) =
     (case ebind (substr move 0 2) Square_string of
        Inl e \<Rightarrow> Inl e
      | Inr piece \<Rightarrow>
          (case ebind (substr move 2 2) Square_string of
             Inl e \<Rightarrow> Inl e
           | Inr location \<Rightarrow> loadMoves_tokens (acc @ [(piece, location)]) moves))"

definition loadMoves :: "string \<Rightarrow> 'a puzzle_scheme \<Rightarrow> error + 'a puzzle_scheme" where
  "loadMoves pgnMoves s =
     ebind (loadMoves_tokens (solutionMoves s) (split pgnMoves CHR '' '')) (\<lambda>ms.
       Inr (s\<lparr>solutionMoves := ms\<rparr>))"

text \<open>
  The conversion of the \<^verbatim>\<open>int currentStep\<close> to the unsigned 64-bit \<^verbatim>\<open>size_t\<close>, which the
  comparisons with \<^verbatim>\<open>solutionMoves.size()\<close> and the index operator apply to it.
\<close>

definition size_t_of :: "int \<Rightarrow> nat" where
  "size_t_of i = nat (i mod 2 ^ 64)"

definition makeOpponentMove ::
  "'a puzzle_scheme \<Rightarrow> error + ('a puzzle_scheme \<times> event list)" where
  "makeOpponentMove s =
     (if size_t_of (currentStep s) \<ge> length (solutionMoves s) then Inl VectorIndex
      else
        let currentMove = solutionMoves s ! size_t_of (currentStep s);
            piece = fst currentMove;
            move = snd currentMove
        in ebind (movePieceUnconditionally s piece move) (\<lambda>(s', ev).
             Inr (s'\<lparr>currentStep := currentStep s' + 1\<rparr>, ev)))"

text \<open>The result of \<^verbatim>\<open>makeGuess\<close> is the new state, the events and the returned \<^verbatim>\<open>bool\<close>.\<close>

definition makeGuess ::
  "'a puzzle_scheme \<Rightarrow> Square \<Rightarrow> Square \<Rightarrow> error + ('a puzzle_scheme \<times> event list \<times> bool)" where
  "makeGuess s from_sq to_sq =
     (if size_t_of (currentStep s) \<ge> length (solutionMoves s) then Inr (s, [], False)
      else
        let (expFrom, expTo) = solutionMoves s ! size_t_of (currentStep s)
        in if from_sq = expFrom \<and> to_sq = expTo then
             ebind (movePieceUnconditionally s from_sq to_sq) (\<lambda>(s1, ev).
               let s2 = s1\<lparr>currentStep := currentStep s1 + 1\<rparr>
               in if size_t_of (currentStep s2) = length (solutionMoves s2)
                  then Inr (s2, ev @ [beatPuzzle], True)
                  else Inr (s2, ev @ [singleShot_makeOpponentMove 1000], True))
           else Inr (s, [], False))"

definition isSolved :: "'a puzzle_scheme \<Rightarrow> bool" where
  "isSolved s \<longleftrightarrow> size_t_of (currentStep s) \<ge> length (solutionMoves s)"

subsection \<open>The constructor from a record of the puzzle database\<close>

text \<open>
  \<^verbatim>\<open>ChessPuzzle::ChessPuzzle(const std::string& PGN)\<close>. The constructor of the base class runs
  first and emits \<^verbatim>\<open>set_player(currentPlayer)\<close>. An exception leaves no object behind.
\<close>

definition ChessPuzzle_PGN :: "string \<Rightarrow> error + (puzzle \<times> event list)" where
  "ChessPuzzle_PGN PGN =
     (let ev0 = [set_player (currentPlayer new_puzzle)];
          s0 = new_puzzle\<lparr>debugging := True\<rparr>;
          parts = split PGN CHR '',''
      in if length parts < 9 then Inr (s0, ev0)
         else
           let fen = parts ! 1;
               moves = parts ! 2
           in ebind (stoi (parts ! 3)) (\<lambda>elo.
              ebind (loadFEN fen (s0\<lparr>puzzleElo := elo\<rparr>)) (\<lambda>s1.
              ebind (loadMoves moves s1) (\<lambda>s2.
              ebind (makeOpponentMove s2) (\<lambda>(s3, ev).
                Inr (s3, ev0 @ ev @ [set_player (currentPlayer s3)]))))))"

section \<open>The terms of the claims\<close>

text \<open>
  The definitions of this section are not taken from the source: they say, in the words of
  the specification, what the operations above are claimed to compute.
\<close>

subsection \<open>Lines between two squares\<close>

text \<open>
  The number of steps from \<open>old\<close> to \<open>target\<close> along a rank, file or diagonal, the squares
  strictly between the two, and whether one of them holds a piece.
\<close>

definition path_length :: "Square \<Rightarrow> Square \<Rightarrow> nat" where
  "path_length old target = nat (max \<bar>row target - row old\<bar> \<bar>col target - col old\<bar>)"

definition between :: "Square \<Rightarrow> Square \<Rightarrow> Square list" where
  "between old target =
     map (\<lambda>i. \<lparr>row = row old + int i * sgn (row target - row old),
               col = col old + int i * sgn (col target - col old)\<rparr>)
       [1 ..< path_length old target]"

definition straight :: "Square \<Rightarrow> Square \<Rightarrow> bool" where
  "straight old target \<longleftrightarrow> (row old = row target) \<noteq> (col old = col target)"

definition diagonal :: "Square \<Rightarrow> Square \<Rightarrow> bool" where
  "diagonal old target \<longleftrightarrow>
     \<bar>row target - row old\<bar> = \<bar>col target - col old\<bar> \<and> old \<noteq> target"

definition occupied :: "board \<Rightarrow> Square \<Rightarrow> bool" where
  "occupied b sq \<longleftrightarrow> b (row sq) (col sq) \<noteq> 0"

definition blocked :: "board \<Rightarrow> Square \<Rightarrow> Square \<Rightarrow> bool" where
  "blocked b old target = list_ex (occupied b) (between old target)"

subsection \<open>The effect of a move\<close>

text \<open>The other side; the board after a move: the destination overwritten with the origin's
  piece code, then the origin cleared.\<close>

definition other_player :: "Player \<Rightarrow> Player" where
  "other_player p = (if p = WHITE then BLACK else WHITE)"

definition moved_board :: "board \<Rightarrow> Square \<Rightarrow> Square \<Rightarrow> board" where
  "moved_board b old target =
     (let b1 = b(row target := (b (row target))(col target := b (row old) (col old)))
      in b1(row old := (b1 (row old))(col old := 0)))"

subsection \<open>The pawn rule of the specification\<close>

text \<open>
  In the order of the specification: a backward move is illegal; a forward single step is
  legal; a forward diagonal step is legal iff the target does not hold a friendly piece; a
  forward double step is legal iff the pawn is on its home rank (row 6 for the positive side,
  row 1 for the negative side) and the square in between is empty; everything else is illegal.
\<close>

definition pawn_rule :: "board \<Rightarrow> Square \<Rightarrow> Square \<Rightarrow> bool" where
  "pawn_rule b old target =
     (let side = b (row old) (col old);
          dr = row target - row old;
          dc = col target - col old
      in if dr * side > 0 then False
         else if dc = 0 \<and> dr = - side then True
         else if \<bar>dc\<bar> = 1 \<and> dr = - side then b (row target) (col target) * side \<le> 0
         else if dc = 0 \<and> dr = - 2 * side then
           row old = (if side = 1 then 6 else 1) \<and> b (row old - side) (col old) = 0
         else False)"

subsection \<open>Events of an unconditional move\<close>

fun is_capture :: "event \<Rightarrow> bool" where
  "is_capture (capture_at x y n) = True"
| "is_capture _ = False"

definition capture_events :: "board \<Rightarrow> Square \<Rightarrow> Square \<Rightarrow> event list" where
  "capture_events b old target =
     (if b (row target) (col target) \<noteq> 0 \<and> b (row old) (col old) \<noteq> 0
      then [capture_at (of_int (col target) + 1 / 2) (8 - of_int (row target) - 1 / 2) 30]
      else [])"

definition won_events :: "board \<Rightarrow> Square \<Rightarrow> event list" where
  "won_events b target = (if \<bar>b (row target) (col target)\<bar> = KING then [won_game] else [])"

fun is_set_player :: "event \<Rightarrow> bool" where
  "is_set_player (set_player p) = True"
| "is_set_player _ = False"

subsection \<open>The guards and the dispatch of movePiece\<close>

text \<open>
  \<open>legality\<close> is the predicate that the switch of \<^verbatim>\<open>movePiece\<close> consults for the piece on the
  origin square. The switch has no case for a code whose magnitude is none of the six kinds:
  no predicate accepts the move and nothing is done, which counts here as a rejection.
  \<open>guarded\<close> is the disjunction of the three tests made before the switch.
\<close>

definition legality :: "board \<Rightarrow> Square \<Rightarrow> Square \<Rightarrow> (error + bool) option" where
  "legality b old target =
     (let kind = \<bar>b (row old) (col old)\<bar>
      in if kind = KING then Some (Inr (isLegalKingMove old target))
         else if kind = QUEEN then isLegalQueenMove b old target
         else if kind = BISHOP then isLegalBishopMove b old target
         else if kind = KNIGHT then Some (Inr (isLegalKnightMove old target))
         else if kind = ROOK then isLegalRookMove b old target
         else if kind = PAWN then isLegalPawnMove b old target
         else Some (Inr False))"

definition guarded :: "'a chess_scheme \<Rightarrow> Square \<Rightarrow> Square \<Rightarrow> bool" where
  "guarded s old target \<longleftrightarrow>
     board s (row old) (col old) * player_int (currentPlayer s) \<le> 0
     \<or> old = target
     \<or> board s (row target) (col target) * player_int (currentPlayer s) > 0"

subsection \<open>Example positions\<close>

text \<open>A new game: the member initialisers of \<^verbatim>\<open>Chess\<close>, then \<^verbatim>\<open>loadDefaultBoard()\<close>.\<close>

definition new_chess :: chess where
  "new_chess = \<lparr>board = empty_board, currentPlayer = WHITE, debugging = False\<rparr>"

definition default_game :: chess where
  "default_game = loadDefaultBoard new_chess"

text \<open>A black king alone on e8 (row 0, column 4), White to move.\<close>

definition lone_king :: chess where
  "lone_king = new_chess\<lparr>board := empty_board(0 := (empty_board 0)(4 := - KING))\<rparr>"

text \<open>A white rook on e4 (row 4, column 4) attacking a black king on e8, White to move.\<close>

definition king_en_prise :: chess where
  "king_en_prise = new_chess\<lparr>board :=
      (\<lambda>r c. if r = 0 \<and> c = 4 then - KING else if r = 4 \<and> c = 4 then ROOK else 0)\<rparr>"

text \<open>
  A puzzle after its constructor has played the first move of the solution a1a8 g8h7: white
  rook on a8, black king on g8, white king on g1, Black to move.
\<close>

definition rook_puzzle :: puzzle where
  "rook_puzzle =
     \<lparr>board = (\<lambda>r c. if r = 0 \<and> c = 0 then ROOK else if r = 0 \<and> c = 6 then - KING
                      else if r = 7 \<and> c = 6 then KING else 0),
      currentPlayer = BLACK, debugging = True,
      solutionMoves = [(\<lparr>row = 7, col = 0\<rparr>, \<lparr>row = 0, col = 0\<rparr>),
                       (\<lparr>row = 0, col = 6\<rparr>, \<lparr>row = 1, col = 7\<rparr>)],
      currentStep = 1, puzzleElo = 1500, usedHint = False\<rparr>"

subsection \<open>Well-formed puzzle records\<close>

text \<open>
  The letters of the FEN notation and the piece codes of the data model. The letters P, R, N,
  B, Q, K stand for pawn, rook, knight, bishop, queen and king, whose codes are 1 to 6 in
  this order; an uppercase letter is a piece of the positive side, the lowercase letter the
  same piece of the negative side; any other character is no piece. This table is written
  from the notation and the data model of the specification, not from \<^verbatim>\<open>toPiece\<close>.
\<close>

definition fen_white :: "(char \<times> int) list" where
  "fen_white = zip ''PRNBQK'' [1, 2, 3, 4, 5, 6]"

definition fen_black :: "(char \<times> int) list" where
  "fen_black = zip ''prnbqk'' [1, 2, 3, 4, 5, 6]"

definition fen_piece :: "char \<Rightarrow> int" where
  "fen_piece ch =
     (case map_of fen_white ch of
        Some kind \<Rightarrow> kind
      | None \<Rightarrow> (case map_of fen_black ch of Some kind \<Rightarrow> - kind | None \<Rightarrow> 0))"

text \<open>
  The placement field of a FEN is eight ranks joined by \<^verbatim>\<open>/\<close>, rank 8 first. A rank is a
  string of digits, each standing for that many empty squares, and piece letters; it is well
  formed when it contains no \<^verbatim>\<open>/\<close> and describes exactly eight squares. \<open>fen_placement\<close> is
  the board a list of ranks describes.
\<close>

definition expand_rank :: "string \<Rightarrow> int list" where
  "expand_rank rank =
     concat (map (\<lambda>ch. if isdigit ch then replicate (nat (char_int ch - char_int CHR ''0'')) 0
                        else [fen_piece ch]) rank)"

fun join_ranks :: "string list \<Rightarrow> string" where
  "join_ranks [] = []"
| "join_ranks [rank] = rank"
| "join_ranks (rank # ranks) = rank @ CHR ''/'' # join_ranks ranks"

definition wf_rank :: "string \<Rightarrow> bool" where
  "wf_rank rank \<longleftrightarrow> CHR ''/'' \<notin> set rank \<and> length (expand_rank rank) = 8"

definition wf_ranks :: "string list \<Rightarrow> bool" where
  "wf_ranks ranks \<longleftrightarrow> length ranks = 8 \<and> list_all wf_rank ranks"

definition fen_placement :: "string list \<Rightarrow> board" where
  "fen_placement ranks = (\<lambda>r c. if in_range r c then expand_rank (ranks ! nat r) ! nat c else 0)"

text \<open>
  A square in algebraic notation: a file letter a to h (in either case) and a rank digit 1 to
  8; row 0 is rank 8 and column 0 is file a. A move of the solution is two such squares, four
  characters.
\<close>

definition wf_square :: "string \<Rightarrow> bool" where
  "wf_square sq \<longleftrightarrow>
     length sq = 2
     \<and> ((char_int CHR ''a'' \<le> char_int (sq ! 0) \<and> char_int (sq ! 0) \<le> char_int CHR ''h'')
        \<or> (char_int CHR ''A'' \<le> char_int (sq ! 0) \<and> char_int (sq ! 0) \<le> char_int CHR ''H''))
     \<and> char_int CHR ''1'' \<le> char_int (sq ! 1) \<and> char_int (sq ! 1) \<le> char_int CHR ''8''"

definition square_of :: "string \<Rightarrow> Square" where
  "square_of sq =
     \<lparr>row = char_int CHR ''8'' - char_int (sq ! 1),
      col = (if char_int CHR ''a'' \<le> char_int (sq ! 0)
             then char_int (sq ! 0) - char_int CHR ''a''
             else char_int (sq ! 0) - char_int CHR ''A'')\<rparr>"

definition wf_move :: "string \<Rightarrow> bool" where
  "wf_move m \<longleftrightarrow> length m = 4 \<and> wf_square (take 2 m) \<and> wf_square (drop 2 m)"

definition move_of :: "string \<Rightarrow> Square \<times> Square" where
  "move_of m = (square_of (take 2 m), square_of (drop 2 m))"

text \<open>The comma-separated fields of a record, the space-separated fields of its FEN
  (field 1) and the tokens of its move list (field 2), as \<open>split\<close> gives them.\<close>

definition field :: "string \<Rightarrow> nat \<Rightarrow> string" where
  "field PGN i = split PGN CHR '','' ! i"

definition fen_fields :: "string \<Rightarrow> string list" where
  "fen_fields PGN = split (field PGN 1) CHR '' ''"

definition move_tokens :: "string \<Rightarrow> string list" where
  "move_tokens PGN = split (field PGN 2) CHR '' ''"

text \<open>A record whose FEN is the starting position, with all twelve piece letters, and whose
  solution begins with e2e4.\<close>

definition start_record :: string where
  "start_record =
     ''00000,rnbqkbnr/pppppppp/8/8/8/8/PPPPPPPP/RNBQKBNR w - - 0 1,e2e4 e7e5,1500,80,90,100,opening,https://lichess.org/x''"

definition start_ranks :: "string list" where
  "start_ranks =
     [''rnbqkbnr'', ''pppppppp'', ''8'', ''8'', ''8'', ''8'', ''PPPPPPPP'', ''RNBQKBNR'']"

section \<open>Lemmas\<close>

subsection \<open>Results and the loops of clearBoard\<close>

lemma ebind_simps [simp]:
  "ebind (Inl e) f = Inl e"
  "ebind (Inr x) f = f x"
  by (simp_all add: ebind_def)

lemma cbind_simps [simp]:
  "cbind None g = None"
  "cbind (Some (Inl e)) g = Some (Inl e)"
  "cbind (Some (Inr x)) g = g x"
  by (simp_all add: cbind_def)

lemma clearBoard_cols_0: "clearBoard_cols b r 0 = Inl OutOfBounds"
  by (simp add: clearBoard_cols.simps wr_def in_range_def)

subsection \<open>The obstruction check along a line\<close>

lemma while_walk:
  "(ro \<noteq> 0 \<or> co \<noteq> 0) \<Longrightarrow>
   (\<forall>i<k. in_range (r + int i * ro) (c + int i * co)) \<Longrightarrow>
   isPieceInterrupting_while b ro co \<lparr>row = r, col = c\<rparr>
       \<lparr>row = r + int k * ro, col = c + int k * co\<rparr>
     = Some (Inr (\<exists>i<k. b (r + int i * ro) (c + int i * co) \<noteq> 0))"
proof (induction k arbitrary: r c)
  case 0
  show ?case by (subst isPieceInterrupting_while.simps) simp
next
  case (Suc k)
  have ne: "\<lparr>row = r, col = c\<rparr> \<noteq> \<lparr>row = r + int (Suc k) * ro, col = c + int (Suc k) * co\<rparr>"
    using Suc.prems(1) by auto
  have here: "in_range r c"
    using Suc.prems(2) [rule_format, of 0] by simp
  have rest: "\<forall>i<k. in_range ((r + ro) + int i * ro) ((c + co) + int i * co)"
  proof (intro allI impI)
    fix i assume "i < k"
    then have "in_range (r + int (Suc i) * ro) (c + int (Suc i) * co)"
      using Suc.prems(2) by auto
    then show "in_range ((r + ro) + int i * ro) ((c + co) + int i * co)"
      by (simp add: algebra_simps)
  qed
  have tgt: "\<lparr>row = r + int (Suc k) * ro, col = c + int (Suc k) * co\<rparr>
             = \<lparr>row = (r + ro) + int k * ro, col = (c + co) + int k * co\<rparr>"
    by (simp add: algebra_simps)
  have IH: "isPieceInterrupting_while b ro co \<lparr>row = r + ro, col = c + co\<rparr>
       \<lparr>row = r + int (Suc k) * ro, col = c + int (Suc k) * co\<rparr>
     = Some (Inr (\<exists>i<k. b ((r + ro) + int i * ro) ((c + co) + int i * co) \<noteq> 0))"
    unfolding tgt by (rule Suc.IH [OF Suc.prems(1) rest])
  have shift: "(\<exists>i<Suc k. b (r + int i * ro) (c + int i * co) \<noteq> 0)
      \<longleftrightarrow> b r c \<noteq> 0 \<or> (\<exists>i<k. b ((r + ro) + int i * ro) ((c + co) + int i * co) \<noteq> 0)"
  proof -
    have "(\<exists>i<Suc k. b (r + int i * ro) (c + int i * co) \<noteq> 0)
      \<longleftrightarrow> b r c \<noteq> 0 \<or> (\<exists>i<k. b (r + int (Suc i) * ro) (c + int (Suc i) * co) \<noteq> 0)"
      by (simp add: Ex_less_Suc2)
    then show ?thesis by (simp add: algebra_simps)
  qed
  show ?case
    apply (subst isPieceInterrupting_while.simps)
    apply (simp only: ne if_True)
    apply (simp only: shift)
    using here IH
    apply (simp add: rd_def)
    done
qed

lemma in_range_step:
  assumes "0 \<le> r" "r < 8" "0 \<le> r + int n * sr" "r + int n * sr < 8"
    and "sr = - 1 \<or> sr = 0 \<or> sr = 1" and "j \<le> n"
  shows "0 \<le> r + int j * sr \<and> r + int j * sr < 8"
  using assms by auto

lemma isPieceInterrupting_line:
  assumes ob: "in_range r c" "in_range (r + int n * sr) (c + int n * sc)"
    and unit: "sr = - 1 \<or> sr = 0 \<or> sr = 1" "sc = - 1 \<or> sc = 0 \<or> sc = 1"
    and nz: "sr \<noteq> 0 \<or> sc \<noteq> 0" and n: "1 \<le> n"
  shows "isPieceInterrupting b sr sc \<lparr>row = r, col = c\<rparr>
            \<lparr>row = r + int n * sr, col = c + int n * sc\<rparr>
         = Some (Inr (\<exists>i. 1 \<le> i \<and> i < n \<and> b (r + int i * sr) (c + int i * sc) \<noteq> 0))"
proof -
  obtain k where k: "n = Suc k" using n by (cases n) auto
  have inr: "\<forall>i<k. in_range ((r + sr) + int i * sr) ((c + sc) + int i * sc)"
  proof (intro allI impI)
    fix i assume "i < k"
    then have le: "Suc i \<le> n" using k by simp
    have "0 \<le> r + int (Suc i) * sr \<and> r + int (Suc i) * sr < 8"
      using ob unit(1) le by (intro in_range_step [where n = n]) (auto simp: in_range_def)
    moreover have "0 \<le> c + int (Suc i) * sc \<and> c + int (Suc i) * sc < 8"
      using ob unit(2) le by (intro in_range_step [where n = n]) (auto simp: in_range_def)
    ultimately show "in_range ((r + sr) + int i * sr) ((c + sc) + int i * sc)"
      by (simp add: in_range_def algebra_simps)
  qed
  have tgt: "\<lparr>row = r + int n * sr, col = c + int n * sc\<rparr>
      = \<lparr>row = (r + sr) + int k * sr, col = (c + sc) + int k * sc\<rparr>"
    by (simp add: k algebra_simps)
  have ex: "(\<exists>i<k. b ((r + sr) + int i * sr) ((c + sc) + int i * sc) \<noteq> 0)
      \<longleftrightarrow> (\<exists>i. 1 \<le> i \<and> i < n \<and> b (r + int i * sr) (c + int i * sc) \<noteq> 0)"
    (is "?L \<longleftrightarrow> ?R")
  proof
    assume ?L
    then obtain i where "i < k" "b ((r + sr) + int i * sr) ((c + sc) + int i * sc) \<noteq> 0" by blast
    then have "1 \<le> Suc i \<and> Suc i < n \<and> b (r + int (Suc i) * sr) (c + int (Suc i) * sc) \<noteq> 0"
      by (simp add: k algebra_simps)
    then show ?R by blast
  next
    assume ?R
    then obtain i where i: "1 \<le> i" "i < n" "b (r + int i * sr) (c + int i * sc) \<noteq> 0" by blast
    then obtain j where j: "i = Suc j" by (cases i) auto
    with i have "j < k \<and> b ((r + sr) + int j * sr) ((c + sc) + int j * sc) \<noteq> 0"
      by (simp add: k algebra_simps)
    then show ?L by blast
  qed
  show ?thesis
    unfolding isPieceInterrupting_def tgt
    using while_walk [OF nz inr, of b] by (simp add: ex)
qed

lemma blocked_iff:
  "blocked b old target \<longleftrightarrow>
     (\<exists>i. 1 \<le> i \<and> i < path_length old target
          \<and> b (row old + int i * sgn (row target - row old))
               (col old + int i * sgn (col target - col old)) \<noteq> 0)"
proof -
  have "blocked b old target \<longleftrightarrow>
     (\<exists>i\<in>{1 ..< path_length old target}.
        occupied b \<lparr>row = row old + int i * sgn (row target - row old),
                       col = col old + int i * sgn (col target - col old)\<rparr>)"
    unfolding blocked_def between_def list_ex_iff by simp
  also have "\<dots> \<longleftrightarrow>
     (\<exists>i. 1 \<le> i \<and> i < path_length old target
          \<and> b (row old + int i * sgn (row target - row old))
               (col old + int i * sgn (col target - col old)) \<noteq> 0)"
    unfolding occupied_def Bex_def by simp
  finally show ?thesis .
qed

lemma isLegalRookMove_rule:
  assumes "on_board old" "on_board target"
  shows "isLegalRookMove b old target = Some (Inr (straight old target \<and> \<not> blocked b old target))"
proof (cases "straight old target")
  case False
  then show ?thesis by (auto simp: isLegalRookMove_def straight_def Let_def)
next
  case True
  obtain r c where old: "old = \<lparr>row = r, col = c\<rparr>" by (cases old) auto
  obtain r' c' where tgt: "target = \<lparr>row = r', col = c'\<rparr>" by (cases target) auto
  define n where "n = path_length old target"
  define sr where "sr = sgn (r' - r)"
  define sc where "sc = sgn (c' - c)"
  have n1: "1 \<le> n" using True by (auto simp: n_def path_length_def straight_def old tgt)
  have r': "r' = r + int n * sr" and c': "c' = c + int n * sc"
    using True by (auto simp: n_def sr_def sc_def path_length_def straight_def old tgt sgn_if)
  have eqs: "r + int n * sr = r'" "c + int n * sc = c'" using r' c' by simp_all
  have ob: "in_range r c" "in_range (r + int n * sr) (c + int n * sc)"
    unfolding eqs using assms by (simp_all add: on_board_def old tgt)
  have unit: "sr = - 1 \<or> sr = 0 \<or> sr = 1" "sc = - 1 \<or> sc = 0 \<or> sc = 1"
    by (auto simp: sr_def sc_def sgn_if)
  have nz: "sr \<noteq> 0 \<or> sc \<noteq> 0"
    using True by (auto simp: sr_def sc_def straight_def old tgt sgn_if)
  have bl: "blocked b old target
      \<longleftrightarrow> (\<exists>i. 1 \<le> i \<and> i < n \<and> b (r + int i * sr) (c + int i * sc) \<noteq> 0)"
    unfolding blocked_iff n_def sr_def sc_def by (simp add: old tgt)
  have line: "isPieceInterrupting b sr sc \<lparr>row = r, col = c\<rparr> \<lparr>row = r', col = c'\<rparr>
      = Some (Inr (blocked b old target))"
    using isPieceInterrupting_line [OF ob unit nz n1, of b] unfolding eqs bl .
  have div: "r' \<noteq> r \<Longrightarrow> c_div (r' - r) \<bar>r' - r\<bar> = Inr sr" "c' \<noteq> c \<Longrightarrow> c_div (c' - c) \<bar>c' - c\<bar> = Inr sc"
    by (auto simp: c_div_def sr_def sc_def sgn_if)
  have zero: "r' = r \<Longrightarrow> sr = 0" "c' = c \<Longrightarrow> sc = 0" by (auto simp: sr_def sc_def)
  show ?thesis
    using True line div zero
    by (auto simp: isLegalRookMove_def Let_def old tgt straight_def)
qed

lemma isLegalBishopMove_rule:
  assumes "on_board old" "on_board target" "old \<noteq> target"
  shows "isLegalBishopMove b old target = Some (Inr (diagonal old target \<and> \<not> blocked b old target))"
proof (cases "diagonal old target")
  case False
  then show ?thesis using assms(3) by (auto simp: isLegalBishopMove_def diagonal_def Let_def)
next
  case True
  obtain r c where old: "old = \<lparr>row = r, col = c\<rparr>" by (cases old) auto
  obtain r' c' where tgt: "target = \<lparr>row = r', col = c'\<rparr>" by (cases target) auto
  define n where "n = path_length old target"
  define sr where "sr = sgn (r' - r)"
  define sc where "sc = sgn (c' - c)"
  have ne: "r' \<noteq> r" "c' \<noteq> c" using True by (auto simp: diagonal_def old tgt)
  have n1: "1 \<le> n" using True ne by (auto simp: n_def path_length_def diagonal_def old tgt)
  have r': "r' = r + int n * sr" and c': "c' = c + int n * sc"
    using True by (auto simp: n_def sr_def sc_def path_length_def diagonal_def old tgt sgn_if)
  have eqs: "r + int n * sr = r'" "c + int n * sc = c'" using r' c' by simp_all
  have ob: "in_range r c" "in_range (r + int n * sr) (c + int n * sc)"
    unfolding eqs using assms by (simp_all add: on_board_def old tgt)
  have unit: "sr = - 1 \<or> sr = 0 \<or> sr = 1" "sc = - 1 \<or> sc = 0 \<or> sc = 1"
    by (auto simp: sr_def sc_def sgn_if)
  have nz: "sr \<noteq> 0 \<or> sc \<noteq> 0"
    using ne by (auto simp: sr_def sc_def sgn_if)
  have bl: "blocked b old target
      \<longleftrightarrow> (\<exists>i. 1 \<le> i \<and> i < n \<and> b (r + int i * sr) (c + int i * sc) \<noteq> 0)"
    unfolding blocked_iff n_def sr_def sc_def by (simp add: old tgt)
  have line: "isPieceInterrupting b sr sc \<lparr>row = r, col = c\<rparr> \<lparr>row = r', col = c'\<rparr>
      = Some (Inr (blocked b old target))"
    using isPieceInterrupting_line [OF ob unit nz n1, of b] unfolding eqs bl .
  have div: "c_div (r' - r) \<bar>r' - r\<bar> = Inr sr" "c_div (c' - c) \<bar>c' - c\<bar> = Inr sc"
    using ne by (auto simp: c_div_def sr_def sc_def sgn_if)
  show ?thesis
    using True line div
    by (auto simp: isLegalBishopMove_def Let_def old tgt diagonal_def)
qed

lemma isLegalQueenMove_rule:
  assumes "on_board old" "on_board target" "old \<noteq> target"
  shows "isLegalQueenMove b old target
     = Some (Inr ((diagonal old target \<or> straight old target) \<and> \<not> blocked b old target))"
  unfolding isLegalQueenMove_def
  by (auto simp: isLegalBishopMove_rule [OF assms] isLegalRookMove_rule [OF assms(1,2)])

lemma isLegalBishopMove_same: "isLegalBishopMove b sq sq = Some (Inl DivisionByZero)"
  by (simp add: isLegalBishopMove_def c_div_def)

lemma isPieceInterrupting_two:
  assumes "in_range r c" "in_range (r + 2 * d) c" "d = 1 \<or> d = - 1"
  shows "isPieceInterrupting b d 0 \<lparr>row = r, col = c\<rparr> \<lparr>row = r + 2 * d, col = c\<rparr>
     = Some (Inr (b (r + d) c \<noteq> 0))"
proof -
  have ex: "(\<exists>i. 1 \<le> i \<and> i < (2::nat) \<and> b (r + int i * d) (c + int i * 0) \<noteq> 0) \<longleftrightarrow> b (r + d) c \<noteq> 0"
  proof
    assume "\<exists>i. 1 \<le> i \<and> i < (2::nat) \<and> b (r + int i * d) (c + int i * 0) \<noteq> 0"
    then obtain i :: nat where i: "1 \<le> i" "i < 2" "b (r + int i * d) (c + int i * 0) \<noteq> 0"
      by blast
    then have "i = 1" by simp
    with i(3) show "b (r + d) c \<noteq> 0" by simp
  next
    assume "b (r + d) c \<noteq> 0"
    then show "\<exists>i. 1 \<le> i \<and> i < (2::nat) \<and> b (r + int i * d) (c + int i * 0) \<noteq> 0"
      by (intro exI [of _ 1]) simp
  qed
  have "isPieceInterrupting b d 0 \<lparr>row = r, col = c\<rparr> \<lparr>row = r + int 2 * d, col = c + int 2 * 0\<rparr>
     = Some (Inr (\<exists>i. 1 \<le> i \<and> i < (2::nat) \<and> b (r + int i * d) (c + int i * 0) \<noteq> 0))"
    using assms by (intro isPieceInterrupting_line) auto
  then show ?thesis unfolding ex by simp
qed

subsection \<open>The pawn\<close>

lemma isLegalPawnMove_white:
  assumes ir: "in_range r c" "in_range r' c'" and d: "b r c = 1"
  shows "isLegalPawnMove b \<lparr>row = r, col = c\<rparr> \<lparr>row = r', col = c'\<rparr>
     = Some (Inr (pawn_rule b \<lparr>row = r, col = c\<rparr> \<lparr>row = r', col = c'\<rparr>))"
proof -
  have rdo: "rd b r c = Inr (1)" "rd b r' c' = Inr (b r' c')"
    using ir d by (simp_all add: rd_def)
  consider (bwd) "r' - r > 0"
    | (single) "r' - r = - 1" "c' - c = 0"
    | (diag) "r' - r = - 1" "\<bar>c' - c\<bar> = 1"
    | (double) "r' - r = - 2" "c' - c = 0"
    | (far) "r' - r < - 2"
    | (sideways) "r' - r = 0"
    | (skew1) "r' - r = - 1" "\<bar>c' - c\<bar> > 1"
    | (skew2) "r' - r = - 2" "c' - c \<noteq> 0"
    by linarith
  then show ?thesis
  proof cases
    case bwd
    then show ?thesis by (simp add: isLegalPawnMove_def pawn_rule_def rdo d)
  next
    case single
    then show ?thesis by (simp add: isLegalPawnMove_def pawn_rule_def rdo d)
  next
    case diag
    then have "c' \<noteq> c" by auto
    with diag show ?thesis by (simp add: isLegalPawnMove_def pawn_rule_def rdo d)
  next
    case double
    show ?thesis
    proof (cases "r = 6")
      case home: True
      have d6: "b 6 c = 1" and rd6: "rd b 6 c = Inr (1)"
        using d rdo(1) home by simp_all
      have ir6: "in_range 6 c" and ir4: "in_range 4 c"
        using ir(1) home by (simp_all add: in_range_def)
      have two: "isPieceInterrupting b (- 1) 0 \<lparr>row = 6, col = c\<rparr> \<lparr>row = 4, col = c\<rparr>
          = Some (Inr (b 5 c \<noteq> 0))"
        using isPieceInterrupting_two [of 6 c "- 1" b] ir6 ir4 by simp
      have lhs: "isLegalPawnMove b \<lparr>row = 6, col = c\<rparr> \<lparr>row = 4, col = c\<rparr>
          = Some (Inr (b 5 c = 0))"
        by (simp add: isLegalPawnMove_def rd6 two)
      have rhs: "pawn_rule b \<lparr>row = 6, col = c\<rparr> \<lparr>row = 4, col = c\<rparr> \<longleftrightarrow> b 5 c = 0"
        by (simp add: pawn_rule_def d6)
      from double home have eq: "r' = 4" "c' = c" by simp_all
      show ?thesis unfolding home eq lhs rhs ..
    next
      case False
      with double show ?thesis by (simp add: isLegalPawnMove_def pawn_rule_def rdo d)
    qed
  next
    case far
    then have "\<bar>r' - r\<bar> \<noteq> 2" "\<bar>r' - r\<bar> \<noteq> 1" "r' - r \<noteq> - 1" "r' - r \<noteq> - 2"
      "\<not> r' - r > 0"
      by linarith+
    then show ?thesis by (simp add: isLegalPawnMove_def pawn_rule_def rdo d)
  next
    case sideways
    then show ?thesis by (simp add: isLegalPawnMove_def pawn_rule_def rdo d)
  next
    case skew1
    then have "\<bar>c' - c\<bar> \<noteq> 1" "c' \<noteq> c" by linarith+
    with skew1(1) show ?thesis by (simp add: isLegalPawnMove_def pawn_rule_def rdo d)
  next
    case skew2
    then show ?thesis by (simp add: isLegalPawnMove_def pawn_rule_def rdo d)
  qed
qed

lemma isLegalPawnMove_black:
  assumes ir: "in_range r c" "in_range r' c'" and d: "b r c = - 1"
  shows "isLegalPawnMove b \<lparr>row = r, col = c\<rparr> \<lparr>row = r', col = c'\<rparr>
     = Some (Inr (pawn_rule b \<lparr>row = r, col = c\<rparr> \<lparr>row = r', col = c'\<rparr>))"
proof -
  have rdo: "rd b r c = Inr (- 1)" "rd b r' c' = Inr (b r' c')"
    using ir d by (simp_all add: rd_def)
  consider (bwd) "r' - r < 0"
    | (single) "r' - r = 1" "c' - c = 0"
    | (diag) "r' - r = 1" "\<bar>c' - c\<bar> = 1"
    | (double) "r' - r = 2" "c' - c = 0"
    | (far) "r' - r > 2"
    | (sideways) "r' - r = 0"
    | (skew1) "r' - r = 1" "\<bar>c' - c\<bar> > 1"
    | (skew2) "r' - r = 2" "c' - c \<noteq> 0"
    by linarith
  then show ?thesis
  proof cases
    case bwd
    then show ?thesis by (simp add: isLegalPawnMove_def pawn_rule_def rdo d)
  next
    case single
    then show ?thesis by (simp add: isLegalPawnMove_def pawn_rule_def rdo d)
  next
    case diag
    then have "c' \<noteq> c" by auto
    with diag show ?thesis by (simp add: isLegalPawnMove_def pawn_rule_def rdo d)
  next
    case double
    show ?thesis
    proof (cases "r = 1")
      case home: True
      have d6: "b 1 c = - 1" and rd6: "rd b 1 c = Inr (- 1)"
        using d rdo(1) home by simp_all
      have ir6: "in_range 1 c" and ir4: "in_range 3 c"
        using ir(1) home by (simp_all add: in_range_def)
      have two: "isPieceInterrupting b (1) 0 \<lparr>row = 1, col = c\<rparr> \<lparr>row = 3, col = c\<rparr>
          = Some (Inr (b 2 c \<noteq> 0))"
        using isPieceInterrupting_two [of 1 c "1" b] ir6 ir4 by simp
      have lhs: "isLegalPawnMove b \<lparr>row = 1, col = c\<rparr> \<lparr>row = 3, col = c\<rparr>
          = Some (Inr (b 2 c = 0))"
        by (simp add: isLegalPawnMove_def rd6 two)
      have rhs: "pawn_rule b \<lparr>row = 1, col = c\<rparr> \<lparr>row = 3, col = c\<rparr> \<longleftrightarrow> b 2 c = 0"
        by (simp add: pawn_rule_def d6)
      from double home have eq: "r' = 3" "c' = c" by simp_all
      show ?thesis unfolding home eq lhs rhs ..
    next
      case False
      with double show ?thesis by (simp add: isLegalPawnMove_def pawn_rule_def rdo d)
    qed
  next
    case far
    then have "\<bar>r' - r\<bar> \<noteq> 2" "\<bar>r' - r\<bar> \<noteq> 1" "r' - r \<noteq> 1" "r' - r \<noteq> 2"
      "\<not> r' - r < 0"
      by linarith+
    then show ?thesis by (simp add: isLegalPawnMove_def pawn_rule_def rdo d)
  next
    case sideways
    then show ?thesis by (simp add: isLegalPawnMove_def pawn_rule_def rdo d)
  next
    case skew1
    then have "\<bar>c' - c\<bar> \<noteq> 1" "c' \<noteq> c" by linarith+
    with skew1(1) show ?thesis by (simp add: isLegalPawnMove_def pawn_rule_def rdo d)
  next
    case skew2
    then show ?thesis by (simp add: isLegalPawnMove_def pawn_rule_def rdo d)
  qed
qed

lemma isLegalPawnMove_rule:
  assumes ob: "on_board old" "on_board target"
    and pawn: "\<bar>b (row old) (col old)\<bar> = PAWN"
  shows "isLegalPawnMove b old target = Some (Inr (pawn_rule b old target))"
proof -
  obtain r c where old: "old = \<lparr>row = r, col = c\<rparr>" by (cases old) auto
  obtain r' c' where tgt: "target = \<lparr>row = r', col = c'\<rparr>" by (cases target) auto
  have d: "b r c = 1 \<or> b r c = - 1" using pawn by (auto simp: old PAWN_def)
  have ir: "in_range r c" "in_range r' c'" using ob by (simp_all add: on_board_def old tgt)
  show ?thesis
    unfolding old tgt
    using d isLegalPawnMove_white [OF ir] isLegalPawnMove_black [OF ir] by blast
qed

subsection \<open>movePieceUnconditionally and movePiece\<close>

lemma switchPlayer_result:
  "switchPlayer s = (s\<lparr>currentPlayer := other_player (currentPlayer s)\<rparr>,
                     [set_player (other_player (currentPlayer s))])"
  by (cases "currentPlayer s") (simp_all add: switchPlayer_def other_player_def Let_def)

lemma movePieceUnconditionally_result:
  assumes "on_board old" "on_board target"
  shows "movePieceUnconditionally s old target =
     Inr (s\<lparr>board := moved_board (board s) old target,
              currentPlayer := other_player (currentPlayer s)\<rparr>,
          capture_events (board s) old target
            @ [set_player (other_player (currentPlayer s))]
            @ won_events (board s) target @ [update_board])"
  using assms
  by (simp add: movePieceUnconditionally_def on_board_def rd_def wr_def Let_def
      switchPlayer_result moved_board_def capture_events_def won_events_def KING_def)

lemma movePiece_dispatch:
  assumes "on_board old" "on_board target"
  shows "movePiece s old target =
     (if guarded s old target then Some (Inr (s, []))
      else move_if (legality (board s) old target) s old target)"
  using assms
  by (simp add: movePiece_def guarded_def legality_def on_board_def rd_def Let_def move_if_def)

lemma legality_total:
  assumes "on_board old" "on_board target" "old \<noteq> target"
  shows "\<exists>v. legality b old target = Some (Inr v)"
  using isLegalQueenMove_rule [OF assms, of b] isLegalBishopMove_rule [OF assms, of b]
    isLegalRookMove_rule [OF assms(1,2), of b] isLegalPawnMove_rule [OF assms(1,2), of b]
  by (auto simp: legality_def Let_def)

lemma move_if_result:
  assumes "on_board old" "on_board target"
  shows "move_if (Some (Inr v)) s old target =
     Some (Inr (if v then (s\<lparr>board := moved_board (board s) old target,
                              currentPlayer := other_player (currentPlayer s)\<rparr>,
                          capture_events (board s) old target
                            @ [set_player (other_player (currentPlayer s))]
                            @ won_events (board s) target @ [update_board])
                else (s, [])))"
  by (simp add: move_if_def movePieceUnconditionally_result [OF assms])

lemma movePiece_returns:
  assumes "on_board old" "on_board target"
  shows "\<exists>res. movePiece s old target = Some (Inr res)"
proof (cases "guarded s old target")
  case True
  then show ?thesis by (simp add: movePiece_dispatch [OF assms])
next
  case False
  then have "old \<noteq> target" by (simp add: guarded_def)
  from legality_total [OF assms this, of "board s"]
  obtain v where "legality (board s) old target = Some (Inr v)" ..
  then show ?thesis
    using False by (simp add: movePiece_dispatch [OF assms] move_if_result [OF assms])
qed

lemma default_game_simps:
  "on_board \<lparr>row = r, col = c\<rparr> \<Longrightarrow>
     board default_game r c = defaultBoard ! nat r ! nat c"
  "currentPlayer default_game = WHITE"
  by (simp_all add: default_game_def loadDefaultBoard_def loadBoard_def new_chess_def on_board_def)

lemma filter_is_set_player [simp]:
  "filter is_set_player (capture_events b old target) = []"
  "filter is_set_player (won_events b target) = []"
  by (simp_all add: capture_events_def won_events_def)

lemma other_player_neq [simp]: "other_player p \<noteq> p"
  by (cases p) (simp_all add: other_player_def)

subsection \<open>The puzzle session\<close>

lemma size_t_of_nat: "0 \<le> i \<Longrightarrow> i < 2 ^ 31 \<Longrightarrow> size_t_of i = nat i"
  by (simp add: size_t_of_def)

lemma count_list_events [simp]:
  "count_list (capture_events b old target) update_board = 0"
  "count_list (won_events b target) update_board = 0"
  "beatPuzzle \<notin> set (capture_events b old target)"
  "beatPuzzle \<notin> set (won_events b target)"
  "singleShot_makeOpponentMove n \<notin> set (capture_events b old target)"
  "singleShot_makeOpponentMove n \<notin> set (won_events b target)"
  by (simp_all add: capture_events_def won_events_def)

subsection \<open>Loading a FEN placement and a move list\<close>

text \<open>The letter table of \<^verbatim>\<open>toPiece\<close> is the table of the notation, for every character.\<close>

lemma toPiece_fen_piece: "toPiece ch = fen_piece ch"
  by (simp add: toPiece_def fen_piece_def fen_white_def fen_black_def Piece_defs)

lemma expand_rank_simps:
  "expand_rank [] = []"
  "expand_rank (ch # chs) =
     (if isdigit ch then replicate (nat (char_int ch - char_int CHR ''0'')) 0 else [fen_piece ch])
       @ expand_rank chs"
  by (simp_all add: expand_rank_def)

lemma loadFEN_chars_rank:
  assumes "CHR ''/'' \<notin> set rank" "0 \<le> r" "r < 8" "0 \<le> c"
    and "c + int (length (expand_rank rank)) \<le> 8"
    and "\<forall>c'\<ge>c. b r c' = 0"
  shows "loadFEN_chars b r c (rank @ rest) =
     loadFEN_chars
       (\<lambda>r' c'. if r' = r \<and> c \<le> c' \<and> c' < c + int (length (expand_rank rank))
                 then expand_rank rank ! nat (c' - c) else b r' c')
       r (c + int (length (expand_rank rank))) rest"
  using assms
proof (induction rank arbitrary: b c)
  case Nil
  have "(\<lambda>r' c'. if r' = r \<and> c \<le> c' \<and> c' < c + int (length (expand_rank []))
                 then expand_rank [] ! nat (c' - c) else b r' c') = b"
    by (intro ext) (auto simp: expand_rank_simps)
  then show ?case by (simp add: expand_rank_simps)
next
  case (Cons ch chs)
  have nsl: "ch \<noteq> CHR ''/''" "CHR ''/'' \<notin> set chs" using Cons.prems(1) by auto
  show ?case
  proof (cases "isdigit ch")
    case True
    define d where "d = char_int ch - char_int CHR ''0''"
    have d0: "0 \<le> d" using True by (simp add: d_def isdigit_def)
    have er: "expand_rank (ch # chs) = replicate (nat d) 0 @ expand_rank chs"
      using True by (simp add: d_def expand_rank_simps)
    have len: "int (length (expand_rank (ch # chs))) = d + int (length (expand_rank chs))"
      using True d0 by (simp add: d_def expand_rank_simps)
    have bound: "c + d + int (length (expand_rank chs)) \<le> 8"
      using Cons.prems(5) len by simp
    have zero: "\<forall>c'\<ge>c + d. b r c' = 0" using Cons.prems(6) d0 by auto
    have step: "loadFEN_chars b r c ((ch # chs) @ rest) = loadFEN_chars b r (c + d) (chs @ rest)"
      using True nsl(1) by (simp add: d_def)
    have IH: "loadFEN_chars b r (c + d) (chs @ rest) =
       loadFEN_chars
       (\<lambda>r' c'. if r' = r \<and> c + d \<le> c' \<and> c' < c + d + int (length (expand_rank chs))
                 then expand_rank chs ! nat (c' - (c + d)) else b r' c')
       r (c + d + int (length (expand_rank chs))) rest"
    proof (rule Cons.IH [where c = "c + d" and b = b, OF nsl(2) Cons.prems(2,3) _ bound zero])
      show "0 \<le> c + d" using Cons.prems(4) d0 by simp
    qed
    have fn: "(\<lambda>r' c'. if r' = r \<and> c + d \<le> c' \<and> c' < c + d + int (length (expand_rank chs))
                 then expand_rank chs ! nat (c' - (c + d)) else b r' c')
        = (\<lambda>r' c'. if r' = r \<and> c \<le> c' \<and> c' < c + int (length (expand_rank (ch # chs)))
                 then expand_rank (ch # chs) ! nat (c' - c) else b r' c')"
    proof (intro ext)
      fix r' c'
      show "(if r' = r \<and> c + d \<le> c' \<and> c' < c + d + int (length (expand_rank chs))
                 then expand_rank chs ! nat (c' - (c + d)) else b r' c')
        = (if r' = r \<and> c \<le> c' \<and> c' < c + int (length (expand_rank (ch # chs)))
                 then expand_rank (ch # chs) ! nat (c' - c) else b r' c')"
      proof (cases "r' = r \<and> c \<le> c' \<and> c' < c + d + int (length (expand_rank chs))")
        case False
        then show ?thesis using d0 len by auto
      next
        case in_row: True
        show ?thesis
        proof (cases "c' < c + d")
          case True
          then have "nat (c' - c) < nat d" using in_row by linarith
          then have "expand_rank (ch # chs) ! nat (c' - c) = 0"
            by (simp only: er nth_append length_replicate if_True nth_replicate)
          moreover have "b r c' = 0" using Cons.prems(6) in_row by simp
          ultimately show ?thesis using True in_row len by simp
        next
          case False
          then have n: "\<not> nat (c' - c) < nat d" "nat (c' - c) - nat d = nat (c' - (c + d))"
            using in_row d0 by linarith+
          have "expand_rank (ch # chs) ! nat (c' - c) = expand_rank chs ! (nat (c' - c) - nat d)"
            by (simp only: er nth_append length_replicate n(1) if_False)
          then have "expand_rank (ch # chs) ! nat (c' - c) = expand_rank chs ! nat (c' - (c + d))"
            unfolding n(2) .
          then show ?thesis using False in_row len by simp
        qed
      qed
    qed
    show ?thesis
      unfolding step IH fn using len by (simp add: add.assoc)
  next
    case False
    have len: "int (length (expand_rank (ch # chs))) = 1 + int (length (expand_rank chs))"
      using False by (simp add: expand_rank_simps)
    have inr: "in_range r c" using Cons.prems(2-5) len by (simp add: in_range_def)
    define b' where "b' = b(r := (b r)(c := fen_piece ch))"
    have step: "loadFEN_chars b r c ((ch # chs) @ rest) = loadFEN_chars b' r (c + 1) (chs @ rest)"
      using False nsl(1) inr by (simp add: wr_def b'_def toPiece_fen_piece)
    have bound: "c + 1 + int (length (expand_rank chs)) \<le> 8"
      using Cons.prems(5) len by simp
    have zero: "\<forall>c'\<ge>c + 1. b' r c' = 0" using Cons.prems(6) by (simp add: b'_def)
    have IH: "loadFEN_chars b' r (c + 1) (chs @ rest) =
       loadFEN_chars
       (\<lambda>r' c'. if r' = r \<and> c + 1 \<le> c' \<and> c' < c + 1 + int (length (expand_rank chs))
                 then expand_rank chs ! nat (c' - (c + 1)) else b' r' c')
       r (c + 1 + int (length (expand_rank chs))) rest"
    proof (rule Cons.IH [where c = "c + 1" and b = b', OF nsl(2) Cons.prems(2,3) _ bound zero])
      show "0 \<le> c + 1" using Cons.prems(4) by simp
    qed
    have fn: "(\<lambda>r' c'. if r' = r \<and> c + 1 \<le> c' \<and> c' < c + 1 + int (length (expand_rank chs))
                 then expand_rank chs ! nat (c' - (c + 1)) else b' r' c')
        = (\<lambda>r' c'. if r' = r \<and> c \<le> c' \<and> c' < c + int (length (expand_rank (ch # chs)))
                 then expand_rank (ch # chs) ! nat (c' - c) else b r' c')"
    proof (intro ext)
      fix r' c'
      show "(if r' = r \<and> c + 1 \<le> c' \<and> c' < c + 1 + int (length (expand_rank chs))
                 then expand_rank chs ! nat (c' - (c + 1)) else b' r' c')
        = (if r' = r \<and> c \<le> c' \<and> c' < c + int (length (expand_rank (ch # chs)))
                 then expand_rank (ch # chs) ! nat (c' - c) else b r' c')"
      proof (cases "r' = r \<and> c \<le> c' \<and> c' < c + 1 + int (length (expand_rank chs))")
        case outside: False
        then show ?thesis using len by (auto simp: b'_def)
      next
        case in_row: True
        show ?thesis
        proof (cases "c' = c")
          case True
          then show ?thesis using in_row len \<open>\<not> isdigit ch\<close>
            by (simp add: b'_def expand_rank_simps)
        next
          case False
          then have "nat (c' - c) = Suc (nat (c' - (c + 1)))" using in_row by linarith
          then have "expand_rank (ch # chs) ! nat (c' - c) = expand_rank chs ! nat (c' - (c + 1))"
            using \<open>\<not> isdigit ch\<close> by (simp add: expand_rank_simps)
          then show ?thesis using False in_row len by simp
        qed
      qed
    qed
    show ?thesis
      unfolding step IH fn using len by (simp add: add.assoc)
  qed
qed

lemma char_int_literals:
  "char_int CHR ''a'' = 97" "char_int CHR ''h'' = 104" "char_int CHR ''A'' = 65"
  "char_int CHR ''H'' = 72" "char_int CHR ''Z'' = 90" "char_int CHR ''0'' = 48"
  "char_int CHR ''1'' = 49" "char_int CHR ''8'' = 56" "char_int CHR ''9'' = 57"
  by (simp_all add: char_int_def)

lemma Square_string_wf:
  assumes "wf_square sq"
  shows "Square_string sq = Inr (square_of sq)" and "on_board (square_of sq)"
  using assms
  by (auto simp: wf_square_def Square_string_def square_of_def tolower_def char_int_literals
      on_board_def in_range_def Let_def)

lemma loadMoves_tokens_wf:
  "list_all wf_move ms \<Longrightarrow> loadMoves_tokens acc ms = Inr (acc @ map move_of ms)"
proof (induction ms arbitrary: acc)
  case Nil
  show ?case by simp
next
  case (Cons m ms)
  then have wm: "wf_move m" and ms: "list_all wf_move ms"
    by simp_all
  have m: "length m = 4" "wf_square (take 2 m)" "wf_square (drop 2 m)"
    using wm by (simp_all add: wf_move_def)
  have s: "substr m 0 2 = Inr (take 2 m)" "substr m 2 2 = Inr (drop 2 m)"
    using m(1) by (simp_all add: substr_def)
  show ?case
    by (simp add: s Square_string_wf(1) [OF m(2)] Square_string_wf(1) [OF m(3)]
        Cons.IH [OF ms] move_of_def)
qed

lemma loadFEN_chars_ranks:
  assumes "ranks \<noteq> []" "list_all wf_rank ranks" "0 \<le> r" "r + int (length ranks) \<le> 8"
    and "\<forall>r'\<ge>r. \<forall>c. b r' c = 0"
  shows "loadFEN_chars b r 0 (join_ranks ranks) =
     Inr (\<lambda>r' c'. if r \<le> r' \<and> r' < r + int (length ranks) \<and> 0 \<le> c' \<and> c' < 8
                   then expand_rank (ranks ! nat (r' - r)) ! nat c' else b r' c')"
  using assms
proof (induction ranks arbitrary: b r rule: join_ranks.induct)
  case 1
  then show ?case by simp
next
  case (2 rank)
  have wf: "CHR ''/'' \<notin> set rank" "length (expand_rank rank) = 8"
    using "2.prems"(2) by (simp_all add: wf_rank_def)
  have r8: "r < 8" using "2.prems"(4) by simp
  have z: "\<forall>c'\<ge>0. b r c' = 0" using "2.prems"(5) by simp
  have "loadFEN_chars b r 0 (rank @ []) =
     loadFEN_chars
       (\<lambda>r' c'. if r' = r \<and> 0 \<le> c' \<and> c' < 0 + int (length (expand_rank rank))
                 then expand_rank rank ! nat (c' - 0) else b r' c')
       r (0 + int (length (expand_rank rank))) []"
    by (rule loadFEN_chars_rank [where c = 0 and b = b and rest = "[]",
          OF wf(1) "2.prems"(3) r8 _ _ z]) (simp_all add: wf(2))
  moreover have "(\<lambda>r' c'. if r' = r \<and> 0 \<le> c' \<and> c' < 0 + int (length (expand_rank rank))
                 then expand_rank rank ! nat (c' - 0) else b r' c')
      = (\<lambda>r' c'. if r \<le> r' \<and> r' < r + int (length [rank]) \<and> 0 \<le> c' \<and> c' < 8
                   then expand_rank ([rank] ! nat (r' - r)) ! nat c' else b r' c')"
    by (intro ext) (auto simp: wf(2))
  ultimately show ?case by simp
next
  case (3 rank rank2 rest)
  have wfr: "wf_rank rank" and wfs: "list_all wf_rank (rank2 # rest)"
    using "3.prems"(2) by simp_all
  have wf: "CHR ''/'' \<notin> set rank" "length (expand_rank rank) = 8"
    using wfr by (simp_all add: wf_rank_def)
  have r8: "r < 8" using "3.prems"(4) by simp
  have z: "\<forall>c'\<ge>0. b r c' = 0" using "3.prems"(5) by simp
  define b1 where "b1 = (\<lambda>r' c'. if r' = r \<and> 0 \<le> c' \<and> c' < 0 + int (length (expand_rank rank))
                 then expand_rank rank ! nat (c' - 0) else b r' c')"
  have first: "loadFEN_chars b r 0 (rank @ CHR ''/'' # join_ranks (rank2 # rest)) =
     loadFEN_chars b1 r (0 + int (length (expand_rank rank))) (CHR ''/'' # join_ranks (rank2 # rest))"
    unfolding b1_def
    by (rule loadFEN_chars_rank [where c = 0 and b = b,
          OF wf(1) "3.prems"(3) r8 _ _ z]) (simp_all add: wf(2))
  have slash: "loadFEN_chars b1 r (0 + int (length (expand_rank rank))) (CHR ''/'' # join_ranks (rank2 # rest))
      = loadFEN_chars b1 (r + 1) 0 (join_ranks (rank2 # rest))"
    by simp
  have z1: "\<forall>r'\<ge>r + 1. \<forall>c. b1 r' c = 0" using "3.prems"(5) by (simp add: b1_def)
  have IH: "loadFEN_chars b1 (r + 1) 0 (join_ranks (rank2 # rest)) =
     Inr (\<lambda>r' c'. if r + 1 \<le> r' \<and> r' < r + 1 + int (length (rank2 # rest)) \<and> 0 \<le> c' \<and> c' < 8
                   then expand_rank ((rank2 # rest) ! nat (r' - (r + 1))) ! nat c' else b1 r' c')"
  proof (rule "3.IH" [where b = b1 and r = "r + 1", OF _ wfs _ _ z1])
    show "rank2 # rest \<noteq> []" by simp
    show "0 \<le> r + 1" using "3.prems"(3) by simp
    show "r + 1 + int (length (rank2 # rest)) \<le> 8" using "3.prems"(4) by simp
  qed
  have fn: "(\<lambda>r' c'. if r + 1 \<le> r' \<and> r' < r + 1 + int (length (rank2 # rest)) \<and> 0 \<le> c' \<and> c' < 8
                   then expand_rank ((rank2 # rest) ! nat (r' - (r + 1))) ! nat c' else b1 r' c')
     = (\<lambda>r' c'. if r \<le> r' \<and> r' < r + int (length (rank # rank2 # rest)) \<and> 0 \<le> c' \<and> c' < 8
                   then expand_rank ((rank # rank2 # rest) ! nat (r' - r)) ! nat c' else b r' c')"
  proof (intro ext)
    fix r' c'
    show "(if r + 1 \<le> r' \<and> r' < r + 1 + int (length (rank2 # rest)) \<and> 0 \<le> c' \<and> c' < 8
                   then expand_rank ((rank2 # rest) ! nat (r' - (r + 1))) ! nat c' else b1 r' c')
     = (if r \<le> r' \<and> r' < r + int (length (rank # rank2 # rest)) \<and> 0 \<le> c' \<and> c' < 8
                   then expand_rank ((rank # rank2 # rest) ! nat (r' - r)) ! nat c' else b r' c')"
    proof (cases "r' = r")
      case True
      then show ?thesis by (simp add: b1_def wf(2))
    next
      case False
      show ?thesis
      proof (cases "r + 1 \<le> r'")
        case True
        then have "nat (r' - r) = Suc (nat (r' - (r + 1)))" by linarith
        then have "(rank # rank2 # rest) ! nat (r' - r) = (rank2 # rest) ! nat (r' - (r + 1))"
          by simp
        then show ?thesis using True False by (simp add: b1_def)
      next
        case lower: False
        with False have "\<not> r \<le> r'" by simp
        with lower False show ?thesis by (simp add: b1_def)
      qed
    qed
  qed
  show ?case
    unfolding join_ranks.simps first slash IH fn ..
qed

lemma loadFEN_placement:
  assumes "wf_ranks ranks"
  shows "loadFEN_chars empty_board 0 0 (join_ranks ranks) = Inr (fen_placement ranks)"
proof -
  have ne: "ranks \<noteq> []" and wf: "list_all wf_rank ranks" and len: "0 + int (length ranks) \<le> 8"
    using assms by (auto simp: wf_ranks_def)
  have "loadFEN_chars empty_board 0 0 (join_ranks ranks) =
     Inr (\<lambda>r' c'. if 0 \<le> r' \<and> r' < 0 + int (length ranks) \<and> 0 \<le> c' \<and> c' < 8
                   then expand_rank (ranks ! nat (r' - 0)) ! nat c' else empty_board r' c')"
    by (rule loadFEN_chars_ranks [OF ne wf _ len]) (simp_all add: empty_board_def)
  moreover have "(\<lambda>r' c'. if 0 \<le> r' \<and> r' < 0 + int (length ranks) \<and> 0 \<le> c' \<and> c' < 8
                   then expand_rank (ranks ! nat (r' - 0)) ! nat c' else empty_board r' c')
     = fen_placement ranks"
    using assms by (intro ext) (simp add: fen_placement_def in_range_def wf_ranks_def empty_board_def)
  ultimately show ?thesis by simp
qed

lemma wf_move_on_board:
  "wf_move m \<Longrightarrow> on_board (fst (move_of m)) \<and> on_board (snd (move_of m))"
  by (simp add: wf_move_def move_of_def Square_string_wf(2))

section \<open>Theorems\<close>

text \<open>
  C1. The claim: \<^verbatim>\<open>clearBoard()\<close> sets every one of the 64 squares to 0.
  The code does not: both loop counters are decremented, so after writing \<^verbatim>\<open>board[0][0]\<close> the
  inner loop indexes \<^verbatim>\<open>board[0][-1]\<close>, outside the array. For every state the call ends in
  that out-of-range access and never returns a cleared board.
\<close>

theorem clearBoard_out_of_bounds: "clearBoard s = Inl OutOfBounds"
  by (simp add: clearBoard_def clearBoard_rows.simps [of _ 0] clearBoard_cols_0)

text \<open>
  C2. The claim: every \<^verbatim>\<open>Square\<close> that is constructed has row and col in 0..7.
  The constructor from text rejects a rank digit only when it is below 0 or above 8, so
  the text \<^verbatim>\<open>a0\<close> is accepted and gives row 8.
\<close>

theorem Square_string_a0: "Square_string ''a0'' = Inr \<lparr>row = 8, col = 0\<rparr>"
  by (simp add: Square_string_def char_int_def tolower_def)

text \<open>
  C3. The claim: in every call \<^verbatim>\<open>movePieceUnconditionally(from, to)\<close> a capture event fires
  iff the destination held a piece, and a game-won event never fires without a capture event.
  The code fires the capture event only when the origin square holds a piece too
  (\<^verbatim>\<open>board[target] != 0 && board[old] != 0\<close>), while the game-won event depends on the
  destination alone: moving the empty square e4 onto a black king on e8 fires a game-won
  event and no capture event.
\<close>

theorem movePieceUnconditionally_empty_origin:
  "board lone_king 0 4 = - KING \<and> board lone_king 4 4 = 0
   \<and> map_sum id snd
         (movePieceUnconditionally lone_king \<lparr>row = 4, col = 4\<rparr> \<lparr>row = 0, col = 4\<rparr>)
       = Inr [set_player BLACK, won_game, update_board]"
  by (simp add: movePieceUnconditionally_def lone_king_def new_chess_def empty_board_def
      rd_def wr_def in_range_def switchPlayer_def KING_def)

text \<open>
  C3, as the code has it. For squares on the board the call returns, and: a capture event
  fires iff the destination and the origin both held a piece, exactly once, with the
  coordinates (column + 0.5, (8 - row) - 0.5) and the particle count 30; exactly one game-won
  event fires if the destination's magnitude is KING's code, and none otherwise; when the
  origin held a piece, a game-won event comes with a capture event; exactly one board-updated
  event fires, as the last event; the side to move is flipped, and announced once.
\<close>

theorem movePieceUnconditionally_events:
  assumes "on_board old" "on_board target"
  shows "\<exists>s' ev. movePieceUnconditionally s old target = Inr (s', ev)
     \<and> filter is_capture ev =
         (if board s (row target) (col target) \<noteq> 0 \<and> board s (row old) (col old) \<noteq> 0
          then [capture_at (of_int (col target) + 1 / 2) (8 - of_int (row target) - 1 / 2) 30]
          else [])
     \<and> count_list ev won_game = (if \<bar>board s (row target) (col target)\<bar> = KING then 1 else 0)
     \<and> (won_game \<in> set ev \<and> board s (row old) (col old) \<noteq> 0 \<longrightarrow> filter is_capture ev \<noteq> [])
     \<and> count_list ev update_board = 1 \<and> last ev = update_board
     \<and> filter is_set_player ev = [set_player (currentPlayer s')]
     \<and> currentPlayer s' = other_player (currentPlayer s)
     \<and> board s' = moved_board (board s) old target"
  unfolding movePieceUnconditionally_result [OF assms]
  by (auto simp: capture_events_def won_events_def KING_def other_player_def)

theorem movePieceUnconditionally_events_witness:
  "on_board \<lparr>row = 4, col = 4\<rparr> \<and> on_board \<lparr>row = 0, col = 4\<rparr>
   \<and> (\<exists>s' ev. movePieceUnconditionally king_en_prise \<lparr>row = 4, col = 4\<rparr> \<lparr>row = 0, col = 4\<rparr>
                  = Inr (s', ev)
          \<and> filter is_capture ev = [capture_at (9 / 2) (15 / 2) 30]
          \<and> count_list ev won_game = 1
          \<and> count_list ev update_board = 1 \<and> last ev = update_board
          \<and> currentPlayer s' = BLACK
          \<and> board s' 0 4 = ROOK \<and> board s' 4 4 = 0)"
proof -
  have a: "on_board \<lparr>row = 4, col = 4\<rparr>" and b: "on_board \<lparr>row = 0, col = 4\<rparr>"
    by (simp_all add: on_board_def in_range_def)
  from movePieceUnconditionally_events [OF a b, of king_en_prise]
  obtain s' ev where
    "movePieceUnconditionally king_en_prise \<lparr>row = 4, col = 4\<rparr> \<lparr>row = 0, col = 4\<rparr> = Inr (s', ev)"
    "filter is_capture ev = [capture_at (9 / 2) (15 / 2) 30]"
    "count_list ev won_game = 1" "count_list ev update_board = 1" "last ev = update_board"
    "currentPlayer s' = BLACK" "board s' 0 4 = ROOK" "board s' 4 4 = 0"
    by (auto simp: king_en_prise_def new_chess_def Piece_defs other_player_def moved_board_def)
  with a b show ?thesis by blast
qed

text \<open>
  C4. For every state and every pair of squares on the board, \<^verbatim>\<open>movePiece(from, to)\<close>
  returns without error, and either leaves the state unchanged and emits nothing, which
  happens exactly when the origin piece is not of the side to move, or the two squares are
  equal, or the target holds a piece of the side to move (these three are \<open>guarded\<close>), or
  the legality predicate of the origin piece rejects the move; or it does what
  \<^verbatim>\<open>movePieceUnconditionally\<close> does: the board is the moved board, the side to move is the
  other side, and one \<^verbatim>\<open>set_player\<close> event is emitted.
\<close>

theorem movePiece_outcome:
  assumes "on_board old" "on_board target"
  shows "(guarded s old target \<or> legality (board s) old target = Some (Inr False)
            \<longrightarrow> movePiece s old target = Some (Inr (s, [])))
       \<and> (\<not> guarded s old target \<and> legality (board s) old target \<noteq> Some (Inr False)
            \<longrightarrow> legality (board s) old target = Some (Inr True)
              \<and> movePiece s old target = Some (movePieceUnconditionally s old target)
              \<and> (\<exists>s' ev. movePiece s old target = Some (Inr (s', ev))
                    \<and> s' \<noteq> s
                    \<and> board s' = moved_board (board s) old target
                    \<and> currentPlayer s' = other_player (currentPlayer s)
                    \<and> filter is_set_player ev = [set_player (currentPlayer s')]))"
proof (cases "guarded s old target")
  case True
  then show ?thesis by (simp add: movePiece_dispatch [OF assms])
next
  case False
  then have ne: "old \<noteq> target" by (simp add: guarded_def)
  from legality_total [OF assms ne, of "board s"]
  obtain v where v: "legality (board s) old target = Some (Inr v)" ..
  have neq: "s\<lparr>board := moved_board (board s) old target,
               currentPlayer := other_player (currentPlayer s)\<rparr> \<noteq> s"
  proof
    assume "s\<lparr>board := moved_board (board s) old target,
               currentPlayer := other_player (currentPlayer s)\<rparr> = s"
    then have "currentPlayer (s\<lparr>board := moved_board (board s) old target,
               currentPlayer := other_player (currentPlayer s)\<rparr>) = currentPlayer s"
      by simp
    then show False by simp
  qed
  show ?thesis
  proof (cases v)
    case True
    with False v neq show ?thesis
      by (simp add: movePiece_dispatch [OF assms] move_if_result [OF assms]
          movePieceUnconditionally_result [OF assms])
  next
    case False
    with v show ?thesis
      by (simp add: movePiece_dispatch [OF assms] move_if_result [OF assms])
  qed
qed

theorem movePiece_outcome_witness:
  "on_board \<lparr>row = 6, col = 4\<rparr> \<and> on_board \<lparr>row = 4, col = 4\<rparr> \<and> on_board \<lparr>row = 3, col = 4\<rparr>
   \<and> \<not> guarded default_game \<lparr>row = 6, col = 4\<rparr> \<lparr>row = 4, col = 4\<rparr>
   \<and> legality (board default_game) \<lparr>row = 6, col = 4\<rparr> \<lparr>row = 4, col = 4\<rparr> = Some (Inr True)
   \<and> (\<exists>s' ev. movePiece default_game \<lparr>row = 6, col = 4\<rparr> \<lparr>row = 4, col = 4\<rparr> = Some (Inr (s', ev))
         \<and> board s' 4 4 = PAWN \<and> board s' 6 4 = 0 \<and> currentPlayer s' = BLACK)
   \<and> legality (board default_game) \<lparr>row = 6, col = 4\<rparr> \<lparr>row = 3, col = 4\<rparr> = Some (Inr False)
   \<and> movePiece default_game \<lparr>row = 6, col = 4\<rparr> \<lparr>row = 3, col = 4\<rparr> = Some (Inr (default_game, []))"
proof -
  have a: "on_board \<lparr>row = 6, col = 4\<rparr>" and b: "on_board \<lparr>row = 4, col = 4\<rparr>"
    and c: "on_board \<lparr>row = 3, col = 4\<rparr>"
    by (simp_all add: on_board_def in_range_def)
  have g: "\<not> guarded default_game \<lparr>row = 6, col = 4\<rparr> \<lparr>row = 4, col = 4\<rparr>"
    by (simp add: guarded_def default_game_simps(1) [OF a] default_game_simps(1) [OF b]
        default_game_simps(2) defaultBoard_def Piece_defs)
  have l: "legality (board default_game) \<lparr>row = 6, col = 4\<rparr> \<lparr>row = 4, col = 4\<rparr> = Some (Inr True)"
    by code_simp
  have l': "legality (board default_game) \<lparr>row = 6, col = 4\<rparr> \<lparr>row = 3, col = 4\<rparr> = Some (Inr False)"
    by code_simp
  have m: "moved_board (board default_game) \<lparr>row = 6, col = 4\<rparr> \<lparr>row = 4, col = 4\<rparr> 4 4 = PAWN"
     "moved_board (board default_game) \<lparr>row = 6, col = 4\<rparr> \<lparr>row = 4, col = 4\<rparr> 6 4 = 0"
    by (simp_all add: moved_board_def default_game_simps(1) [OF a] defaultBoard_def)
  have l2: "legality (board default_game) \<lparr>row = 6, col = 4\<rparr> \<lparr>row = 4, col = 4\<rparr> \<noteq> Some (Inr False)"
    using l by simp
  from movePiece_outcome [OF a b, of default_game] g l2
  have "\<exists>s' ev. movePiece default_game \<lparr>row = 6, col = 4\<rparr> \<lparr>row = 4, col = 4\<rparr> = Some (Inr (s', ev))
      \<and> s' \<noteq> default_game
      \<and> board s' = moved_board (board default_game) \<lparr>row = 6, col = 4\<rparr> \<lparr>row = 4, col = 4\<rparr>
      \<and> currentPlayer s' = other_player (currentPlayer default_game)
      \<and> filter is_set_player ev = [set_player (currentPlayer s')]"
    by blast
  then obtain s' ev where
    r: "movePiece default_game \<lparr>row = 6, col = 4\<rparr> \<lparr>row = 4, col = 4\<rparr> = Some (Inr (s', ev))"
    and bs: "board s' = moved_board (board default_game) \<lparr>row = 6, col = 4\<rparr> \<lparr>row = 4, col = 4\<rparr>"
    and cp: "currentPlayer s' = other_player (currentPlayer default_game)"
    by blast
  have "board s' 4 4 = PAWN" "board s' 6 4 = 0" "currentPlayer s' = BLACK"
    by (simp_all add: bs cp m default_game_simps(2) other_player_def)
  with r have "\<exists>s' ev. movePiece default_game \<lparr>row = 6, col = 4\<rparr> \<lparr>row = 4, col = 4\<rparr> = Some (Inr (s', ev))
         \<and> board s' 4 4 = PAWN \<and> board s' 6 4 = 0 \<and> currentPlayer s' = BLACK"
    by blast
  moreover from movePiece_outcome [OF a c, of default_game] l'
  have "movePiece default_game \<lparr>row = 6, col = 4\<rparr> \<lparr>row = 3, col = 4\<rparr> = Some (Inr (default_game, []))"
    by simp
  ultimately show ?thesis using a b c g l l' by simp
qed

text \<open>
  C5. For every board and every origin square on the board that holds a pawn (code 1 or -1)
  and every target square on the board, \<^verbatim>\<open>isLegalPawnMove\<close> returns, and its result is the
  case analysis \<open>pawn_rule\<close>: backward moves illegal, the forward single step legal whatever
  the destination holds, the forward diagonal step legal iff target times sign is at most 0,
  the forward double step legal iff the pawn is on its home rank and the square in between is
  empty, every other displacement illegal.
\<close>

theorem isLegalPawnMove_cases:
  assumes "on_board old" "on_board target" "\<bar>b (row old) (col old)\<bar> = PAWN"
  shows "isLegalPawnMove b old target = Some (Inr (pawn_rule b old target))"
  using assms by (rule isLegalPawnMove_rule)

theorem isLegalPawnMove_cases_witness:
  "on_board \<lparr>row = 6, col = 4\<rparr> \<and> on_board \<lparr>row = 4, col = 4\<rparr>
   \<and> \<bar>board default_game 6 4\<bar> = PAWN
   \<and> isLegalPawnMove (board default_game) \<lparr>row = 6, col = 4\<rparr> \<lparr>row = 4, col = 4\<rparr>
       = Some (Inr True)"
proof -
  have a: "on_board \<lparr>row = 6, col = 4\<rparr>" and b: "on_board \<lparr>row = 4, col = 4\<rparr>"
    and c: "on_board \<lparr>row = 5, col = 4\<rparr>"
    by (simp_all add: on_board_def in_range_def)
  have p: "\<bar>board default_game (row \<lparr>row = 6, col = 4\<rparr>) (col \<lparr>row = 6, col = 4\<rparr>)\<bar> = PAWN"
    by (simp add: default_game_simps(1) [OF a] defaultBoard_def Piece_defs)
  have "pawn_rule (board default_game) \<lparr>row = 6, col = 4\<rparr> \<lparr>row = 4, col = 4\<rparr>"
    by (simp add: pawn_rule_def default_game_simps(1) [OF a] default_game_simps(1) [OF c]
        defaultBoard_def Piece_defs)
  with isLegalPawnMove_cases [of "\<lparr>row = 6, col = 4\<rparr>" "\<lparr>row = 4, col = 4\<rparr>" "board default_game", OF a b p] a b p
  show ?thesis by simp
qed

text \<open>
  C6. For two squares on the board on a common rank, file or diagonal, if a square strictly
  between them is occupied, then \<^verbatim>\<open>isLegalRookMove\<close>, \<^verbatim>\<open>isLegalBishopMove\<close> and
  \<^verbatim>\<open>isLegalQueenMove\<close> all return false. (Such a path has length 2 to 7.)
\<close>

theorem sliding_blocked_illegal:
  assumes "on_board old" "on_board target"
    and "straight old target \<or> diagonal old target"
    and "blocked b old target"
  shows "isLegalRookMove b old target = Some (Inr False)
       \<and> isLegalBishopMove b old target = Some (Inr False)
       \<and> isLegalQueenMove b old target = Some (Inr False)
       \<and> 2 \<le> path_length old target \<and> path_length old target \<le> 7"
proof -
  have ne: "old \<noteq> target" using assms(3) by (auto simp: straight_def diagonal_def)
  have len: "2 \<le> path_length old target"
    using assms(4) by (auto simp: blocked_iff)
  have "path_length old target \<le> 7"
    using assms(1,2) by (auto simp: path_length_def on_board_def in_range_def)
  with len show ?thesis
    using assms(4)
    by (simp add: isLegalRookMove_rule [OF assms(1,2)] isLegalBishopMove_rule [OF assms(1,2) ne]
        isLegalQueenMove_rule [OF assms(1,2) ne])
qed

theorem sliding_blocked_illegal_witness:
  "on_board \<lparr>row = 7, col = 0\<rparr> \<and> on_board \<lparr>row = 4, col = 0\<rparr>
   \<and> straight \<lparr>row = 7, col = 0\<rparr> \<lparr>row = 4, col = 0\<rparr>
   \<and> blocked (board default_game) \<lparr>row = 7, col = 0\<rparr> \<lparr>row = 4, col = 0\<rparr>
   \<and> isLegalRookMove (board default_game) \<lparr>row = 7, col = 0\<rparr> \<lparr>row = 4, col = 0\<rparr> = Some (Inr False)
   \<and> isLegalQueenMove (board default_game) \<lparr>row = 7, col = 0\<rparr> \<lparr>row = 4, col = 0\<rparr> = Some (Inr False)"
proof -
  have a: "on_board \<lparr>row = 7, col = 0\<rparr>" and b: "on_board \<lparr>row = 4, col = 0\<rparr>"
    by (simp_all add: on_board_def in_range_def)
  have s: "straight \<lparr>row = 7, col = 0\<rparr> \<lparr>row = 4, col = 0\<rparr>"
    by (simp add: straight_def)
  have bl: "blocked (board default_game) \<lparr>row = 7, col = 0\<rparr> \<lparr>row = 4, col = 0\<rparr>"
    by code_simp
  from sliding_blocked_illegal [OF a b disjI1 [OF s] bl] a b s bl show ?thesis by simp
qed

text \<open>
  C7. For every record that splits into at least 9 comma-separated fields, whose field 1
  splits at spaces into at least two fields, the first the eight well-formed ranks \<open>ranks\<close>
  joined by \<^verbatim>\<open>/\<close> and the second \<^verbatim>\<open>w\<close> or \<^verbatim>\<open>b\<close>, whose field 3 is read by \<^verbatim>\<open>std::stoi\<close>
  as \<open>elo\<close>, and whose field 2 splits at spaces into a non-empty list of well-formed
  four-character moves: the constructor returns; the board is the placement of the FEN (read
  with the letter table \<open>fen_piece\<close> of the notation, which \<^verbatim>\<open>toPiece\<close> is proved to equal) with
  move 0 of the solution applied (destination overwritten with the origin's piece, origin
  cleared); \<^verbatim>\<open>currentStep\<close> is 1; the rating is \<open>elo\<close>; the solution list is the parsed
  move list; and the last event emitted is \<^verbatim>\<open>set_player\<close> of the side to move after the
  first move, which is the side opposite to the active colour of the FEN. Exactly one move was
  played.
\<close>

theorem ChessPuzzle_PGN_loads:
  assumes fields: "9 \<le> length (split PGN CHR '','')"
    and fen: "2 \<le> length (fen_fields PGN)"
    and placement: "fen_fields PGN ! 0 = join_ranks ranks" "wf_ranks ranks"
    and colour: "fen_fields PGN ! 1 = ''w'' \<or> fen_fields PGN ! 1 = ''b''"
    and rating: "stoi (field PGN 3) = Inr elo"
    and moves: "move_tokens PGN \<noteq> []" "list_all wf_move (move_tokens PGN)"
  shows "\<exists>s ev. ChessPuzzle_PGN PGN = Inr (s, ev)
     \<and> board s = moved_board (fen_placement ranks)
                   (square_of (take 2 (move_tokens PGN ! 0)))
                   (square_of (drop 2 (move_tokens PGN ! 0)))
     \<and> currentStep s = 1
     \<and> puzzleElo s = elo
     \<and> solutionMoves s = map move_of (move_tokens PGN)
     \<and> currentPlayer s = (if fen_fields PGN ! 1 = ''w'' then BLACK else WHITE)
     \<and> last ev = set_player (currentPlayer s)
     \<and> count_list ev update_board = 1"
proof -
  define s0 where "s0 = new_puzzle\<lparr>debugging := True, puzzleElo := elo\<rparr>"
  define side where "side = (if fen_fields PGN ! 1 = ''b'' then BLACK else WHITE)"
  define s1 where "s1 = s0\<lparr>board := fen_placement ranks, currentPlayer := side\<rparr>"
  define s2 where "s2 = s1\<lparr>solutionMoves := map move_of (move_tokens PGN)\<rparr>"
  define m0 where "m0 = move_of (move_tokens PGN ! 0)"
  have nf: "\<not> length (split PGN CHR '','') < 9" using fields by simp
  have b0: "board s0 = empty_board" "solutionMoves s0 = []"
    by (simp_all add: s0_def new_puzzle_def)
  have ff: "split (field PGN 1) CHR '' '' = fen_fields PGN"
    and mt: "split (field PGN 2) CHR '' '' = move_tokens PGN"
    by (simp_all add: fen_fields_def move_tokens_def)
  have l1: "loadFEN (field PGN 1) s0 = Inr s1"
    unfolding loadFEN_def ff Let_def
    using fen placement(1) loadFEN_placement [OF placement(2)]
    by (simp add: b0 s1_def side_def)
  have l2: "loadMoves (field PGN 2) s1 = Inr s2"
    unfolding loadMoves_def mt
    using loadMoves_tokens_wf [OF moves(2), of "[]"]
    by (simp add: s1_def b0 s2_def)
  have len: "0 < length (move_tokens PGN)" using moves(1) by simp
  have wf0: "wf_move (move_tokens PGN ! 0)"
    using moves(2) len by (simp add: list_all_length)
  have ob: "on_board (fst m0)" "on_board (snd m0)"
    using wf_move_on_board [OF wf0] by (simp_all add: m0_def)
  have st: "size_t_of (currentStep s2) = 0" "solutionMoves s2 ! 0 = m0"
    "solutionMoves s2 \<noteq> []"
    using len by (simp_all add: s2_def s1_def s0_def new_puzzle_def size_t_of_def m0_def)
  have l3: "makeOpponentMove s2 =
      Inr (s2\<lparr>board := moved_board (board s2) (fst m0) (snd m0),
               currentPlayer := other_player (currentPlayer s2),
               currentStep := currentStep s2 + 1\<rparr>,
           capture_events (board s2) (fst m0) (snd m0)
             @ [set_player (other_player (currentPlayer s2))]
             @ won_events (board s2) (snd m0) @ [update_board])"
    by (simp add: makeOpponentMove_def st Let_def movePieceUnconditionally_result [OF ob])
  have all: "ChessPuzzle_PGN PGN =
      Inr (s2\<lparr>board := moved_board (board s2) (fst m0) (snd m0),
               currentPlayer := other_player (currentPlayer s2),
               currentStep := currentStep s2 + 1\<rparr>,
           [set_player WHITE]
             @ (capture_events (board s2) (fst m0) (snd m0)
                 @ [set_player (other_player (currentPlayer s2))]
                 @ won_events (board s2) (snd m0) @ [update_board])
             @ [set_player (other_player (currentPlayer s2))])"
    unfolding ChessPuzzle_PGN_def Let_def field_def [symmetric]
    using nf rating l1 l2 l3
    by (simp add: s0_def new_puzzle_def)
  have flip: "other_player side = (if fen_fields PGN ! 1 = ''w'' then BLACK else WHITE)"
    using colour by (auto simp: side_def other_player_def)
  show ?thesis
    unfolding all
    by (simp add: s2_def s1_def s0_def new_puzzle_def m0_def move_of_def flip)
qed

theorem ChessPuzzle_PGN_loads_witness:
  "9 \<le> length (split start_record CHR '','')
   \<and> 2 \<le> length (fen_fields start_record)
   \<and> fen_fields start_record ! 0 = join_ranks start_ranks \<and> wf_ranks start_ranks
   \<and> fen_fields start_record ! 1 = ''w''
   \<and> stoi (field start_record 3) = Inr 1500
   \<and> move_tokens start_record = [''e2e4'', ''e7e5''] \<and> list_all wf_move (move_tokens start_record)
   \<and> (\<exists>s ev. ChessPuzzle_PGN start_record = Inr (s, ev)
         \<and> map (board s 0) [0, 1, 2, 3, 4, 5, 6, 7] = [- 2, - 3, - 4, - 5, - 6, - 4, - 3, - 2]
         \<and> map (board s 1) [0, 1, 2, 3, 4, 5, 6, 7] = [- 1, - 1, - 1, - 1, - 1, - 1, - 1, - 1]
         \<and> map (board s 4) [0, 1, 2, 3, 4, 5, 6, 7] = [0, 0, 0, 0, 1, 0, 0, 0]
         \<and> map (board s 6) [0, 1, 2, 3, 4, 5, 6, 7] = [1, 1, 1, 1, 0, 1, 1, 1]
         \<and> map (board s 7) [0, 1, 2, 3, 4, 5, 6, 7] = [2, 3, 4, 5, 6, 4, 3, 2]
         \<and> currentStep s = 1 \<and> puzzleElo s = 1500
         \<and> solutionMoves s = [(\<lparr>row = 6, col = 4\<rparr>, \<lparr>row = 4, col = 4\<rparr>),
                                (\<lparr>row = 1, col = 4\<rparr>, \<lparr>row = 3, col = 4\<rparr>)]
         \<and> currentPlayer s = BLACK \<and> last ev = set_player BLACK)"
proof -
  have h1: "9 \<le> length (split start_record CHR '','')" by code_simp
  have h2: "2 \<le> length (fen_fields start_record)" by code_simp
  have h3: "fen_fields start_record ! 0 = join_ranks start_ranks" by code_simp
  have h4: "wf_ranks start_ranks" by code_simp
  have h5: "fen_fields start_record ! 1 = ''w''" by code_simp
  have h6: "stoi (field start_record 3) = Inr 1500" by code_simp
  have h7: "move_tokens start_record = [''e2e4'', ''e7e5'']" by code_simp
  have h8: "list_all wf_move (move_tokens start_record)" by code_simp
  have h7': "move_tokens start_record \<noteq> []" using h7 by simp
  have mv: "map move_of (move_tokens start_record)
      = [(\<lparr>row = 6, col = 4\<rparr>, \<lparr>row = 4, col = 4\<rparr>), (\<lparr>row = 1, col = 4\<rparr>, \<lparr>row = 3, col = 4\<rparr>)]"
    by code_simp
  have sq: "square_of (take 2 (move_tokens start_record ! 0)) = \<lparr>row = 6, col = 4\<rparr>"
    "square_of (drop 2 (move_tokens start_record ! 0)) = \<lparr>row = 4, col = 4\<rparr>"
    by code_simp+
  have pl:
    "map (fen_placement start_ranks 0) [0, 1, 2, 3, 4, 5, 6, 7] = [- 2, - 3, - 4, - 5, - 6, - 4, - 3, - 2]"
    "map (fen_placement start_ranks 1) [0, 1, 2, 3, 4, 5, 6, 7] = [- 1, - 1, - 1, - 1, - 1, - 1, - 1, - 1]"
    "map (fen_placement start_ranks 4) [0, 1, 2, 3, 4, 5, 6, 7] = [0, 0, 0, 0, 0, 0, 0, 0]"
    "map (fen_placement start_ranks 6) [0, 1, 2, 3, 4, 5, 6, 7] = [1, 1, 1, 1, 1, 1, 1, 1]"
    "map (fen_placement start_ranks 7) [0, 1, 2, 3, 4, 5, 6, 7] = [2, 3, 4, 5, 6, 4, 3, 2]"
    by code_simp+
  from ChessPuzzle_PGN_loads [OF h1 h2 h3 h4 disjI1 [OF h5] h6 h7' h8]
  obtain s ev where
    r: "ChessPuzzle_PGN start_record = Inr (s, ev)"
    and bs: "board s = moved_board (fen_placement start_ranks) \<lparr>row = 6, col = 4\<rparr> \<lparr>row = 4, col = 4\<rparr>"
    and rest: "currentStep s = 1" "puzzleElo s = 1500"
      "solutionMoves s = [(\<lparr>row = 6, col = 4\<rparr>, \<lparr>row = 4, col = 4\<rparr>),
                                (\<lparr>row = 1, col = 4\<rparr>, \<lparr>row = 3, col = 4\<rparr>)]"
      "currentPlayer s = BLACK" "last ev = set_player BLACK"
    unfolding sq mv using h5 by auto
  have rows:
    "map (board s 0) [0, 1, 2, 3, 4, 5, 6, 7] = [- 2, - 3, - 4, - 5, - 6, - 4, - 3, - 2]"
    "map (board s 1) [0, 1, 2, 3, 4, 5, 6, 7] = [- 1, - 1, - 1, - 1, - 1, - 1, - 1, - 1]"
    "map (board s 4) [0, 1, 2, 3, 4, 5, 6, 7] = [0, 0, 0, 0, 1, 0, 0, 0]"
    "map (board s 6) [0, 1, 2, 3, 4, 5, 6, 7] = [1, 1, 1, 1, 0, 1, 1, 1]"
    "map (board s 7) [0, 1, 2, 3, 4, 5, 6, 7] = [2, 3, 4, 5, 6, 4, 3, 2]"
    using pl by (simp_all add: bs moved_board_def)
  with r rest have "\<exists>s ev. ChessPuzzle_PGN start_record = Inr (s, ev)
         \<and> map (board s 0) [0, 1, 2, 3, 4, 5, 6, 7] = [- 2, - 3, - 4, - 5, - 6, - 4, - 3, - 2]
         \<and> map (board s 1) [0, 1, 2, 3, 4, 5, 6, 7] = [- 1, - 1, - 1, - 1, - 1, - 1, - 1, - 1]
         \<and> map (board s 4) [0, 1, 2, 3, 4, 5, 6, 7] = [0, 0, 0, 0, 1, 0, 0, 0]
         \<and> map (board s 6) [0, 1, 2, 3, 4, 5, 6, 7] = [1, 1, 1, 1, 0, 1, 1, 1]
         \<and> map (board s 7) [0, 1, 2, 3, 4, 5, 6, 7] = [2, 3, 4, 5, 6, 4, 3, 2]
         \<and> currentStep s = 1 \<and> puzzleElo s = 1500
         \<and> solutionMoves s = [(\<lparr>row = 6, col = 4\<rparr>, \<lparr>row = 4, col = 4\<rparr>),
                                (\<lparr>row = 1, col = 4\<rparr>, \<lparr>row = 3, col = 4\<rparr>)]
         \<and> currentPlayer s = BLACK \<and> last ev = set_player BLACK"
    by (intro exI [of _ s] exI [of _ ev]) simp
  with h1 h2 h3 h4 h5 h6 h7 h8 show ?thesis by simp
qed

text \<open>
  C8. For every puzzle state whose cursor is a non-negative \<^verbatim>\<open>int\<close> that can be incremented,
  and all squares: if \<^verbatim>\<open>currentStep\<close> is at or past the end of the solution list, or the
  pair differs from the move at \<^verbatim>\<open>currentStep\<close>, then \<^verbatim>\<open>makeGuess\<close> returns false, emits
  nothing and leaves the state (board, cursor, side to move) unchanged. Otherwise, for squares
  on the board, it returns true; the board is the board after the guessed move alone and the
  side to move is flipped; the cursor is one more than before (the reply of the opponent is
  only scheduled, by a timer of 1000 ms, when the puzzle is not finished); and the
  puzzle-beaten event fires iff the cursor now equals the length of the list.
\<close>

theorem makeGuess_outcome:
  assumes "0 \<le> currentStep s" "currentStep s < 2 ^ 31 - 1"
  shows "(int (length (solutionMoves s)) \<le> currentStep s
            \<or> (from_sq, to_sq) \<noteq> solutionMoves s ! nat (currentStep s)
          \<longrightarrow> makeGuess s from_sq to_sq = Inr (s, [], False))
       \<and> (currentStep s < int (length (solutionMoves s))
            \<and> (from_sq, to_sq) = solutionMoves s ! nat (currentStep s)
            \<and> on_board from_sq \<and> on_board to_sq
          \<longrightarrow> (\<exists>s' ev. makeGuess s from_sq to_sq = Inr (s', ev, True)
                 \<and> board s' = moved_board (board s) from_sq to_sq
                 \<and> currentPlayer s' = other_player (currentPlayer s)
                 \<and> currentStep s' = currentStep s + 1
                 \<and> solutionMoves s' = solutionMoves s
                 \<and> count_list ev update_board = 1
                 \<and> (beatPuzzle \<in> set ev \<longleftrightarrow> currentStep s' = int (length (solutionMoves s')))
                 \<and> (singleShot_makeOpponentMove 1000 \<in> set ev
                      \<longleftrightarrow> currentStep s' \<noteq> int (length (solutionMoves s')))))"
proof -
  have st: "size_t_of (currentStep s) = nat (currentStep s)"
    "size_t_of (currentStep s + 1) = nat (currentStep s + 1)"
    using assms by (simp_all add: size_t_of_nat)
  have ge: "(length (solutionMoves s) \<le> nat (currentStep s)) \<longleftrightarrow> int (length (solutionMoves s)) \<le> currentStep s"
    using assms(1) by linarith
  have eq: "(nat (currentStep s + 1) = length (solutionMoves s)) \<longleftrightarrow> currentStep s + 1 = int (length (solutionMoves s))"
    using assms(1) by linarith
  have a: "int (length (solutionMoves s)) \<le> currentStep s
            \<or> (from_sq, to_sq) \<noteq> solutionMoves s ! nat (currentStep s)
          \<Longrightarrow> makeGuess s from_sq to_sq = Inr (s, [], False)"
    by (auto simp: makeGuess_def st ge split: prod.splits)
  have b: "\<exists>s' ev. makeGuess s from_sq to_sq = Inr (s', ev, True)
                 \<and> board s' = moved_board (board s) from_sq to_sq
                 \<and> currentPlayer s' = other_player (currentPlayer s)
                 \<and> currentStep s' = currentStep s + 1
                 \<and> solutionMoves s' = solutionMoves s
                 \<and> count_list ev update_board = 1
                 \<and> (beatPuzzle \<in> set ev \<longleftrightarrow> currentStep s' = int (length (solutionMoves s')))
                 \<and> (singleShot_makeOpponentMove 1000 \<in> set ev
                      \<longleftrightarrow> currentStep s' \<noteq> int (length (solutionMoves s')))"
    if lt: "currentStep s < int (length (solutionMoves s))"
      and mv: "(from_sq, to_sq) = solutionMoves s ! nat (currentStep s)"
      and ob: "on_board from_sq" "on_board to_sq"
  proof -
    have nge: "\<not> length (solutionMoves s) \<le> nat (currentStep s)" using lt ge by simp
    show ?thesis
      using nge mv [symmetric]
      by (simp add: makeGuess_def st eq movePieceUnconditionally_result [OF ob] Let_def)
  qed
  from a b show ?thesis by blast
qed

theorem makeGuess_outcome_witness:
  "0 \<le> currentStep rook_puzzle \<and> currentStep rook_puzzle < 2 ^ 31 - 1
   \<and> on_board \<lparr>row = 0, col = 6\<rparr> \<and> on_board \<lparr>row = 1, col = 7\<rparr>
   \<and> makeGuess rook_puzzle \<lparr>row = 0, col = 6\<rparr> \<lparr>row = 1, col = 6\<rparr> = Inr (rook_puzzle, [], False)
   \<and> (\<exists>s' ev. makeGuess rook_puzzle \<lparr>row = 0, col = 6\<rparr> \<lparr>row = 1, col = 7\<rparr> = Inr (s', ev, True)
         \<and> board s' 1 7 = - KING \<and> board s' 0 6 = 0
         \<and> currentStep s' = 2 \<and> beatPuzzle \<in> set ev
         \<and> singleShot_makeOpponentMove 1000 \<notin> set ev)"
proof -
  have h: "0 \<le> currentStep rook_puzzle" "currentStep rook_puzzle < 2 ^ 31 - 1"
    by (simp_all add: rook_puzzle_def)
  have ob: "on_board \<lparr>row = 0, col = 6\<rparr>" "on_board \<lparr>row = 1, col = 7\<rparr>"
    by (simp_all add: on_board_def in_range_def)
  have wrong: "(\<lparr>row = 0, col = 6\<rparr>, \<lparr>row = 1, col = 6\<rparr>)
      \<noteq> solutionMoves rook_puzzle ! nat (currentStep rook_puzzle)"
    by (simp add: rook_puzzle_def)
  have right: "currentStep rook_puzzle < int (length (solutionMoves rook_puzzle))"
    "(\<lparr>row = 0, col = 6\<rparr>, \<lparr>row = 1, col = 7\<rparr>)
      = solutionMoves rook_puzzle ! nat (currentStep rook_puzzle)"
    by (simp_all add: rook_puzzle_def)
  from makeGuess_outcome [OF h, of "\<lparr>row = 0, col = 6\<rparr>" "\<lparr>row = 1, col = 6\<rparr>"] wrong
  have w: "makeGuess rook_puzzle \<lparr>row = 0, col = 6\<rparr> \<lparr>row = 1, col = 6\<rparr> = Inr (rook_puzzle, [], False)"
    by blast
  from makeGuess_outcome [OF h, of "\<lparr>row = 0, col = 6\<rparr>" "\<lparr>row = 1, col = 7\<rparr>"] right ob
  obtain s' ev where
    r: "makeGuess rook_puzzle \<lparr>row = 0, col = 6\<rparr> \<lparr>row = 1, col = 7\<rparr> = Inr (s', ev, True)"
    and bs: "board s' = moved_board (board rook_puzzle) \<lparr>row = 0, col = 6\<rparr> \<lparr>row = 1, col = 7\<rparr>"
    and cs: "currentStep s' = currentStep rook_puzzle + 1"
    and sm: "solutionMoves s' = solutionMoves rook_puzzle"
    and bp: "beatPuzzle \<in> set ev \<longleftrightarrow> currentStep s' = int (length (solutionMoves s'))"
    and ss: "singleShot_makeOpponentMove 1000 \<in> set ev
                      \<longleftrightarrow> currentStep s' \<noteq> int (length (solutionMoves s'))"
    by blast
  have "board s' 1 7 = - KING" "board s' 0 6 = 0" "currentStep s' = 2" "beatPuzzle \<in> set ev"
    "singleShot_makeOpponentMove 1000 \<notin> set ev"
    by (simp_all add: bs cs sm bp ss moved_board_def rook_puzzle_def)
  with r have "\<exists>s' ev. makeGuess rook_puzzle \<lparr>row = 0, col = 6\<rparr> \<lparr>row = 1, col = 7\<rparr> = Inr (s', ev, True)
         \<and> board s' 1 7 = - KING \<and> board s' 0 6 = 0
         \<and> currentStep s' = 2 \<and> beatPuzzle \<in> set ev
         \<and> singleShot_makeOpponentMove 1000 \<notin> set ev"
    by blast
  with h ob w show ?thesis by simp
qed

text \<open>
  C9. If the record splits into fewer than 9 comma-separated fields, the constructor returns
  before any parsing: the solution list is empty, the board holds only zeros, the rating is 0,
  the cursor is 0, and no move was played (the only event is the \<^verbatim>\<open>set_player\<close> of the
  constructor of \<^verbatim>\<open>Chess\<close>).
\<close>

theorem ChessPuzzle_PGN_short_record:
  assumes "length (split PGN CHR '','') < 9"
  shows "\<exists>s ev. ChessPuzzle_PGN PGN = Inr (s, ev)
     \<and> solutionMoves s = []
     \<and> (\<forall>r c. board s r c = 0)
     \<and> puzzleElo s = 0
     \<and> currentStep s = 0
     \<and> currentPlayer s = WHITE
     \<and> ev = [set_player WHITE]"
  using assms by (simp add: ChessPuzzle_PGN_def new_puzzle_def empty_board_def)

theorem ChessPuzzle_PGN_short_record_witness:
  "length (split ''00sHx,q3k1nr/1pp1nQpp/3p4/1P2p3/4P3/B1PP1b2/B5PP/5K2 b k - 0 17,e8d7'' CHR '','') < 9
   \<and> (\<exists>s ev. ChessPuzzle_PGN ''00sHx,q3k1nr/1pp1nQpp/3p4/1P2p3/4P3/B1PP1b2/B5PP/5K2 b k - 0 17,e8d7''
                 = Inr (s, ev)
          \<and> solutionMoves s = [] \<and> board s 0 0 = 0 \<and> puzzleElo s = 0 \<and> currentStep s = 0
          \<and> ev = [set_player WHITE])"
proof -
  have h: "length (split ''00sHx,q3k1nr/1pp1nQpp/3p4/1P2p3/4P3/B1PP1b2/B5PP/5K2 b k - 0 17,e8d7'' CHR '','') < 9"
    by code_simp
  from ChessPuzzle_PGN_short_record [OF h] h show ?thesis by blast
qed

text \<open>
  C10. For every state and every pair of squares on the board \<^verbatim>\<open>movePiece\<close> returns a
  result, without error. When one of the three guards holds, it returns the unchanged state
  before any legality predicate is consulted; equal squares are guarded, although
  \<^verbatim>\<open>isLegalBishopMove\<close> on equal squares divides by zero; and on different squares
  \<^verbatim>\<open>isLegalBishopMove\<close> and \<^verbatim>\<open>isLegalQueenMove\<close> return without a division by zero.
\<close>

theorem movePiece_total:
  assumes "on_board old" "on_board target"
  shows "(\<exists>res. movePiece s old target = Some (Inr res))
       \<and> (guarded s old target \<longrightarrow> movePiece s old target = Some (Inr (s, [])))
       \<and> (old = target \<longrightarrow> guarded s old target
              \<and> isLegalBishopMove (board s) old target = Some (Inl DivisionByZero))
       \<and> (old \<noteq> target \<longrightarrow>
             (\<exists>v. isLegalBishopMove (board s) old target = Some (Inr v))
           \<and> (\<exists>v. isLegalQueenMove (board s) old target = Some (Inr v)))"
  using movePiece_returns [OF assms, of s]
  by (auto simp: movePiece_dispatch [OF assms] guarded_def isLegalBishopMove_same
      isLegalBishopMove_rule [OF assms] isLegalQueenMove_rule [OF assms])

theorem movePiece_total_witness:
  "on_board \<lparr>row = 7, col = 2\<rparr> \<and> on_board \<lparr>row = 5, col = 4\<rparr>
   \<and> (\<exists>res. movePiece default_game \<lparr>row = 7, col = 2\<rparr> \<lparr>row = 5, col = 4\<rparr> = Some (Inr res))
   \<and> movePiece default_game \<lparr>row = 7, col = 2\<rparr> \<lparr>row = 7, col = 2\<rparr> = Some (Inr (default_game, []))
   \<and> isLegalBishopMove (board default_game) \<lparr>row = 7, col = 2\<rparr> \<lparr>row = 7, col = 2\<rparr>
        = Some (Inl DivisionByZero)"
proof -
  have a: "on_board \<lparr>row = 7, col = 2\<rparr>" and b: "on_board \<lparr>row = 5, col = 4\<rparr>"
    by (simp_all add: on_board_def in_range_def)
  from movePiece_total [OF a b, of default_game] movePiece_total [OF a a, of default_game] a b
  show ?thesis by simp
qed

end
